theory Spec2Isabelle
  imports Main "HOL-Library.Word"
begin

unbundle bit_operations_syntax

section \<open>Bytes, text and Python's string helpers\<close>

text \<open>
  Python \<open>bytes\<close> are lists of 8-bit words. A Python \<open>str\<close> is a \<open>string\<close>; a
  \<open>char\<close> stands for the code point of the same number, so the strings of this theory are
  the Python strings whose code points are below 256.
\<close>

type_synonym byte = "8 word"
type_synonym bytes = "byte list"
type_synonym u32 = "32 word"
type_synonym path = string

text \<open>
  The exceptions the program can meet. \<open>OSError\<close> carries the subclass that \<open>open\<close>
  raises. \<open>InvalidTag\<close> stands for whatever \<open>AESGCM.decrypt\<close> raises (a failed tag check, a
  nonce of the wrong size), \<open>OverflowError\<close> for \<open>AESGCM.encrypt\<close> refusing data beyond the
  size the library accepts. \<open>AttributeError\<close> is what \<open>answer.get\<close> raises when
  \<open>inquirer.prompt\<close> returns \<open>None\<close> because the operator interrupted the prompt.
\<close>

datatype os_error = FileNotFoundError | PermissionError | IsADirectoryError

datatype exn =
  OSError os_error | InvalidTag | OverflowError | AttributeError | IndexError | ValueError

text \<open>\<open>xs[0]\<close>: the first element, \<open>IndexError\<close> on the empty list.\<close>

definition index0 :: "'a list \<Rightarrow> exn + 'a" where
  "index0 xs = (case xs of [] \<Rightarrow> Inl IndexError | x # _ \<Rightarrow> Inr x)"

text \<open>\<open>str.encode("utf-8")\<close> on code points below 256: one byte below 128, two from there.\<close>

definition utf8_char :: "char \<Rightarrow> bytes" where
  "utf8_char c =
     (let n = (of_char c :: nat)
      in if n < 128 then [of_nat n] else [of_nat (192 + n div 64), of_nat (128 + n mod 64)])"

definition utf8 :: "string \<Rightarrow> bytes" where
  "utf8 s = concat (map utf8_char s)"

text \<open>\<open>hexdigest()\<close> writes two lower-case hexadecimal digits per byte.\<close>

definition hex_digit :: "nat \<Rightarrow> char" where
  "hex_digit n = ''0123456789abcdef'' ! (n mod 16)"

definition hex_byte :: "byte \<Rightarrow> string" where
  "hex_byte b = [hex_digit (unat b div 16), hex_digit (unat b mod 16)]"

definition hexdigest :: "bytes \<Rightarrow> string" where
  "hexdigest bs = concat (map hex_byte bs)"

text \<open>\<open>str.upper()\<close>, on the ASCII letters (all a hexadecimal digest holds).\<close>

definition upper_char :: "char \<Rightarrow> char" where
  "upper_char c =
     (let n = (of_char c :: nat) in if 97 \<le> n \<and> n \<le> 122 then char_of (n - 32) else c)"

definition upper :: "string \<Rightarrow> string" where
  "upper s = map upper_char s"

text \<open>
  \<open>str.splitlines()\<close>: the text is cut at every line boundary (line feed, vertical tab,
  form feed, carriage return, the separators 0x1C to 0x1E and NEL 0x85; a carriage return
  followed by a line feed is one boundary), the boundaries are dropped, and a text that ends
  with a boundary has no empty last line. The accumulator holds the current line reversed.
\<close>

definition is_linebreak :: "char \<Rightarrow> bool" where
  "is_linebreak c = ((of_char c :: nat) \<in> {10, 11, 12, 13, 28, 29, 30, 133})"

fun splitlines_from :: "string \<Rightarrow> string \<Rightarrow> string list" where
  "splitlines_from acc [] = (if acc = [] then [] else [rev acc])"
| "splitlines_from acc (c # cs) =
     (if is_linebreak c then
        (case cs of
           d # ds \<Rightarrow>
             if (of_char c :: nat) = 13 \<and> (of_char d :: nat) = 10
             then rev acc # splitlines_from [] ds
             else rev acc # splitlines_from [] cs
         | [] \<Rightarrow> rev acc # splitlines_from [] cs)
      else splitlines_from (c # acc) cs)"

definition splitlines :: "string \<Rightarrow> string list" where
  "splitlines s = splitlines_from [] s"

text \<open>\<open>line.split(sep)\<close> for a separator of one character: never the empty list.\<close>

fun split_char :: "char \<Rightarrow> string \<Rightarrow> string list" where
  "split_char sep [] = [[]]"
| "split_char sep (c # cs) =
     (if c = sep then [] # split_char sep cs
      else (case split_char sep cs of
              f # fs \<Rightarrow> (c # f) # fs
            | [] \<Rightarrow> [[c]]))"

text \<open>
  \<open>s.rsplit(sep, 1)\<close>: the start positions are tried from the right; the first match cuts
  the string in two, and a string without the separator comes back alone. An empty separator
  raises \<open>ValueError\<close>.
\<close>

fun rfind_from :: "string \<Rightarrow> string \<Rightarrow> nat \<Rightarrow> nat option" where
  "rfind_from sep s 0 = (if take (length sep) s = sep then Some 0 else None)"
| "rfind_from sep s (Suc i) =
     (if take (length sep) (drop (Suc i) s) = sep then Some (Suc i) else rfind_from sep s i)"

definition rsplit1 :: "string \<Rightarrow> string \<Rightarrow> exn + string list" where
  "rsplit1 sep s =
     (if sep = [] then Inl ValueError
      else if length s < length sep then Inr [s]
      else (case rfind_from sep s (length s - length sep) of
              None \<Rightarrow> Inr [s]
            | Some i \<Rightarrow> Inr [take i s, drop (i + length sep) s]))"

section \<open>SHA-1 (\<open>hashlib.sha1\<close>)\<close>

text \<open>
  The digest of FIPS 180-4: the message is padded with 0x80, zeros and its length in bits on
  eight bytes up to a multiple of 64 bytes, and every block of 64 bytes updates five 32-bit
  words through eighty rounds.
\<close>

definition sha1_pad :: "bytes \<Rightarrow> bytes" where
  "sha1_pad m =
     m @ [0x80] @ replicate ((119 - length m mod 64) mod 64) 0 @
     map (\<lambda>i. ucast (drop_bit (8 * (7 - i)) (of_nat (8 * length m) :: 64 word))) [0..<8]"

fun be32 :: "bytes \<Rightarrow> u32" where
  "be32 (a # b # c # d # _) =
     push_bit 24 (ucast a) OR push_bit 16 (ucast b) OR push_bit 8 (ucast c) OR ucast d"
| "be32 _ = 0"

fun words_of :: "nat \<Rightarrow> bytes \<Rightarrow> u32 list" where
  "words_of 0 bs = []"
| "words_of (Suc n) bs = be32 bs # words_of n (drop 4 bs)"

definition bytes_of :: "u32 \<Rightarrow> bytes" where
  "bytes_of w = [ucast (drop_bit 24 w), ucast (drop_bit 16 w), ucast (drop_bit 8 w), ucast w]"

text \<open>Rotation to the left: \<open>(x << n) | (x >> (32 - n))\<close> on 32 bits.\<close>

definition rotl32 :: "nat \<Rightarrow> u32 \<Rightarrow> u32" where
  "rotl32 n x = push_bit n x OR drop_bit (32 - n) x"

fun sha1_schedule :: "nat \<Rightarrow> u32 list \<Rightarrow> u32 list" where
  "sha1_schedule 0 ws = ws"
| "sha1_schedule (Suc n) ws =
     sha1_schedule n
       (ws @ [rotl32 1 (ws ! (length ws - 3) XOR ws ! (length ws - 8) XOR
                           ws ! (length ws - 14) XOR ws ! (length ws - 16))])"

type_synonym sha1_state = "u32 \<times> u32 \<times> u32 \<times> u32 \<times> u32"

definition sha1_f :: "nat \<Rightarrow> u32 \<Rightarrow> u32 \<Rightarrow> u32 \<Rightarrow> u32" where
  "sha1_f t b c d =
     (if t < 20 then (b AND c) OR (NOT b AND d)
      else if t < 40 then b XOR c XOR d
      else if t < 60 then (b AND c) OR (b AND d) OR (c AND d)
      else b XOR c XOR d)"

definition sha1_k :: "nat \<Rightarrow> u32" where
  "sha1_k t =
     (if t < 20 then 0x5A827999 else if t < 40 then 0x6ED9EBA1
      else if t < 60 then 0x8F1BBCDC else 0xCA62C1D6)"

fun sha1_rounds :: "nat \<Rightarrow> u32 list \<Rightarrow> sha1_state \<Rightarrow> sha1_state" where
  "sha1_rounds t [] s = s"
| "sha1_rounds t (w # ws) (a, b, c, d, e) =
     sha1_rounds (Suc t) ws
       (rotl32 5 a + sha1_f t b c d + e + sha1_k t + w, a, rotl32 30 b, c, d)"

definition sha1_block :: "sha1_state \<Rightarrow> bytes \<Rightarrow> sha1_state" where
  "sha1_block s blk =
     (case s of (h0, h1, h2, h3, h4) \<Rightarrow>
        (case sha1_rounds 0 (sha1_schedule 64 (words_of 16 blk)) s of
           (a, b, c, d, e) \<Rightarrow> (h0 + a, h1 + b, h2 + c, h3 + d, h4 + e)))"

fun sha1_blocks :: "nat \<Rightarrow> sha1_state \<Rightarrow> bytes \<Rightarrow> sha1_state" where
  "sha1_blocks 0 s bs = s"
| "sha1_blocks (Suc n) s bs = sha1_blocks n (sha1_block s (take 64 bs)) (drop 64 bs)"

definition sha1 :: "bytes \<Rightarrow> bytes" where
  "sha1 m =
     (let p = sha1_pad m in
      case sha1_blocks (length p div 64)
             (0x67452301, 0xEFCDAB89, 0x98BADCFE, 0x10325476, 0xC3D2E1F0) p of
        (a, b, c, d, e) \<Rightarrow> bytes_of a @ bytes_of b @ bytes_of c @ bytes_of d @ bytes_of e)"

section \<open>The environment\<close>

text \<open>
  A path names nothing, a directory, or a regular file with its content and whether this
  process may read and write it. \<open>creatable\<close> tells where a new file can be made (the parent
  directory exists and is writable).
\<close>

record regular_file =
  content :: bytes
  readable :: bool
  writable :: bool

datatype node = Regular regular_file | Directory

text \<open>\<open>requests.get\<close> either raises (no connection) or returns a status code and a text.\<close>

datatype http_result = ConnectionFailed | Response int string

text \<open>The lines \<open>console.print\<close> writes, and the questions \<open>_confirm\<close> asks.\<close>

datatype message =
    MsgFermeture
  | MsgFichierIntrouvable path
  | MsgFichierNonTrouve "path option"
  | MsgDejaChiffre
  | MsgOperationAnnulee
  | MsgChiffreCree path
  | MsgOriginalSupprime
  | MsgPasChiffre
  | MsgMotDePasseVide
  | MsgIncorrectOuCorrompu
  | MsgDechiffrementAnnule
  | MsgDechiffreCree path
  | MsgChiffreSupprime
  | MsgCompromis
  | MsgErreurAPI
  | MsgErreurConnexion

datatype question =
    AskEcraser path
  | AskSupprimerOriginal path
  | AskSupprimerChiffre path
  | AskReessayer
  | AskUtiliserQuandMeme

text \<open>
  The state the program runs in: the file system, the operator's answers still to come (to
  the text prompts, the password prompts and the yes/no prompts, in the order they are
  asked), the bytes \<open>os.urandom\<close> will deliver, the breach service, and what the program
  has done so far: the URLs it requested, the lines it printed, the questions it asked.
\<close>

record world =
  files :: "path \<Rightarrow> node option"
  creatable :: "path \<Rightarrow> bool"
  texts :: "string option list"
  passwords :: "string option list"
  confirms :: "bool list"
  entropy :: "nat \<Rightarrow> byte"
  drawn :: nat
  net :: "string \<Rightarrow> http_result"
  sent :: "string list"
  console :: "message list"
  asked :: "question list"

text \<open>
  The library primitives the program calls and does not define: \<open>hashlib.sha256(..).digest()\<close>
  and \<open>AESGCM(key).encrypt(nonce, data, None)\<close> and \<open>.decrypt\<close>; \<open>None\<close> is a call that
  raises.
\<close>

record primitives =
  sha256 :: "bytes \<Rightarrow> bytes"
  aesgcm_encrypt :: "bytes \<Rightarrow> bytes \<Rightarrow> bytes \<Rightarrow> bytes option"
  aesgcm_decrypt :: "bytes \<Rightarrow> bytes \<Rightarrow> bytes \<Rightarrow> bytes option"

definition print :: "message \<Rightarrow> world \<Rightarrow> world" where
  "print m w = w\<lparr>console := console w @ [m]\<rparr>"

definition isfile :: "world \<Rightarrow> path \<Rightarrow> bool" where
  "isfile w p = (case files w p of Some (Regular f) \<Rightarrow> True | _ \<Rightarrow> False)"

definition path_exists :: "world \<Rightarrow> path \<Rightarrow> bool" where
  "path_exists w p = (files w p \<noteq> None)"

text \<open>\<open>os.path.getsize\<close>; the size of a directory is not used by the program.\<close>

definition getsize :: "world \<Rightarrow> path \<Rightarrow> exn + nat" where
  "getsize w p =
     (case files w p of
        None \<Rightarrow> Inl (OSError FileNotFoundError)
      | Some Directory \<Rightarrow> Inr 0
      | Some (Regular f) \<Rightarrow> Inr (length (content f)))"

text \<open>\<open>open(p, "rb")\<close> followed by reading: the content, or the error \<open>open\<close> raises.\<close>

definition open_rb :: "world \<Rightarrow> path \<Rightarrow> exn + bytes" where
  "open_rb w p =
     (case files w p of
        None \<Rightarrow> Inl (OSError FileNotFoundError)
      | Some Directory \<Rightarrow> Inl (OSError IsADirectoryError)
      | Some (Regular f) \<Rightarrow>
          if readable f then Inr (content f) else Inl (OSError PermissionError))"

text \<open>
  \<open>with open(p, "wb") as fout: fout.write(..)\<close>: the file is replaced by the bytes written,
  or made; when \<open>open\<close> raises, nothing changes.
\<close>

definition write_wb :: "path \<Rightarrow> bytes \<Rightarrow> world \<Rightarrow> (exn + unit) \<times> world" where
  "write_wb p bs w =
     (case files w p of
        Some Directory \<Rightarrow> (Inl (OSError IsADirectoryError), w)
      | Some (Regular f) \<Rightarrow>
          if writable f
          then (Inr (), w\<lparr>files := (files w)(p \<mapsto> Regular (f\<lparr>content := bs\<rparr>))\<rparr>)
          else (Inl (OSError PermissionError), w)
      | None \<Rightarrow>
          if creatable w p
          then (Inr (), w\<lparr>files := (files w)(p \<mapsto>
                  Regular \<lparr>content = bs, readable = True, writable = True\<rparr>)\<rparr>)
          else (Inl (OSError FileNotFoundError), w))"

definition remove :: "path \<Rightarrow> world \<Rightarrow> (exn + unit) \<times> world" where
  "remove p w =
     (case files w p of
        None \<Rightarrow> (Inl (OSError FileNotFoundError), w)
      | Some Directory \<Rightarrow> (Inl (OSError IsADirectoryError), w)
      | Some (Regular f) \<Rightarrow> (Inr (), w\<lparr>files := (files w)(p := None)\<rparr>))"

text \<open>\<open>os.urandom(n)\<close>: the next \<open>n\<close> bytes of the entropy source.\<close>

definition urandom :: "nat \<Rightarrow> world \<Rightarrow> bytes \<times> world" where
  "urandom n w = (map (entropy w) [drawn w ..< drawn w + n], w\<lparr>drawn := drawn w + n\<rparr>)"

section \<open>FileEncryptor\<close>

definition HEADER_SIGNATURE :: bytes where
  "HEADER_SIGNATURE = map (of_nat \<circ> of_char) ''YJCHGCM1''"

definition HEADER_LEN :: nat where
  "HEADER_LEN = length HEADER_SIGNATURE"

definition IV_LEN :: nat where
  "IV_LEN = 12"

subsection \<open>Prompts\<close>

text \<open>
  Each prompt takes the operator's next answer of its kind. A text or password answer is
  \<open>None\<close> when the answers hold no such key. When the operator interrupts the prompt (no
  answer is left) \<open>answer.get\<close> raises.
\<close>

definition ask_file_path :: "world \<Rightarrow> (exn + string option) \<times> world" where
  "ask_file_path w =
     (case texts w of [] \<Rightarrow> (Inl AttributeError, w) | a # as \<Rightarrow> (Inr a, w\<lparr>texts := as\<rparr>))"

definition ask_password :: "world \<Rightarrow> (exn + string option) \<times> world" where
  "ask_password w =
     (case passwords w of
        [] \<Rightarrow> (Inl AttributeError, w)
      | a # as \<Rightarrow> (Inr a, w\<lparr>passwords := as\<rparr>))"

definition ask_output_path :: "string \<Rightarrow> world \<Rightarrow> (exn + string) \<times> world" where
  "ask_output_path default_path w =
     (case texts w of
        [] \<Rightarrow> (Inl AttributeError, w)
      | a # as \<Rightarrow>
          (Inr (case a of None \<Rightarrow> default_path | Some output \<Rightarrow> output), w\<lparr>texts := as\<rparr>))"

definition confirm :: "question \<Rightarrow> world \<Rightarrow> (exn + bool) \<times> world" where
  "confirm q w =
     (case confirms w of
        [] \<Rightarrow> (Inl AttributeError, w\<lparr>asked := asked w @ [q]\<rparr>)
      | a # as \<Rightarrow> (Inr a, w\<lparr>asked := asked w @ [q], confirms := as\<rparr>))"

subsection \<open>Format detection, key derivation, breach check\<close>

text \<open>
  \<open>_is_already_encrypted\<close>: \<open>f.read(HEADER_LEN)\<close> is at most the first eight bytes. Only
  \<open>FileNotFoundError\<close> is caught.
\<close>

definition is_already_encrypted :: "path \<Rightarrow> world \<Rightarrow> (exn + bool) \<times> world" where
  "is_already_encrypted p w =
     (case open_rb w p of
        Inr bs \<Rightarrow> (Inr (take HEADER_LEN bs = HEADER_SIGNATURE), w)
      | Inl (OSError FileNotFoundError) \<Rightarrow> (Inr False, print (MsgFichierIntrouvable p) w)
      | Inl e \<Rightarrow> (Inl e, w))"

definition derive_key :: "primitives \<Rightarrow> string \<Rightarrow> bytes" where
  "derive_key P password = sha256 P (utf8 password)"

text \<open>
  \<open>suffix in hashes\<close>, where \<open>hashes\<close> is the generator of \<open>line.split(":")[0]\<close> over the
  lines: the fields are produced one by one until one equals the suffix.
\<close>

fun suffix_in_hashes :: "string \<Rightarrow> string list \<Rightarrow> exn + bool" where
  "suffix_in_hashes suffix [] = Inr False"
| "suffix_in_hashes suffix (line # lines) =
     (case index0 (split_char (CHR '':'') line) of
        Inl e \<Rightarrow> Inl e
      | Inr h \<Rightarrow> if suffix = h then Inr True else suffix_in_hashes suffix lines)"

definition sha1_hex_upper :: "string \<Rightarrow> string" where
  "sha1_hex_upper password = upper (hexdigest (sha1 (utf8 password)))"

definition range_url :: "string \<Rightarrow> string" where
  "range_url prefix = ''https://api.pwnedpasswords.com/range/'' @ prefix"

text \<open>
  \<open>_check_password_pwned\<close>. The URL handed to \<open>requests.get\<close> is recorded in \<open>sent\<close>
  whether or not an answer comes back. Every exception of the request and of the search is
  caught.
\<close>

definition check_password_pwned :: "string \<Rightarrow> world \<Rightarrow> bool \<times> world" where
  "check_password_pwned password w =
     (let sha1_pw = sha1_hex_upper password;
          prefix = take 5 sha1_pw;
          suffix = drop 5 sha1_pw;
          url = range_url prefix;
          w1 = w\<lparr>sent := sent w @ [url]\<rparr>
      in case net w url of
           ConnectionFailed \<Rightarrow> (False, print MsgErreurConnexion w1)
         | Response status_code body \<Rightarrow>
             if status_code \<noteq> 200 then (False, print MsgErreurAPI w1)
             else (case suffix_in_hashes suffix (splitlines body) of
                     Inl e \<Rightarrow> (False, print MsgErreurConnexion w1)
                   | Inr found \<Rightarrow> (found, w1)))"

text \<open>
  \<open>_ask_password_and_verify\<close>: the loop ends with a password that is not empty and either
  not reported as breached or accepted by the operator all the same.
\<close>

function ask_password_and_verify :: "world \<Rightarrow> (exn + string) \<times> world" where
  "ask_password_and_verify w =
     (case ask_password w of
        (Inl e, w1) \<Rightarrow> (Inl e, w1)
      | (Inr None, w1) \<Rightarrow> ask_password_and_verify (print MsgMotDePasseVide w1)
      | (Inr (Some password), w1) \<Rightarrow>
          if password = [] then ask_password_and_verify (print MsgMotDePasseVide w1)
          else (case check_password_pwned password w1 of
                  (False, w2) \<Rightarrow> (Inr password, w2)
                | (True, w2) \<Rightarrow>
                    (case confirm AskUtiliserQuandMeme (print MsgCompromis w2) of
                       (Inl e, w3) \<Rightarrow> (Inl e, w3)
                     | (Inr answer, w3) \<Rightarrow>
                         if answer = False then ask_password_and_verify w3
                         else (Inr password, w3))))"
  by pat_completeness auto
termination
proof (relation "measure (\<lambda>w. length (passwords w))")
  show "wf (measure (\<lambda>w. length (passwords w)))"
    by simp
next
  fix w x1 w1 b
  assume "(x1, w1) = ask_password w" "x1 = Inr b" "b = None"
  then show "(print MsgMotDePasseVide w1, w) \<in> measure (\<lambda>w. length (passwords w))"
    by (auto simp: ask_password_def print_def split: list.splits)
next
  fix w x1 w1 b password
  assume "(x1, w1) = ask_password w" "x1 = Inr b" "b = Some password" "password = []"
  then show "(print MsgMotDePasseVide w1, w) \<in> measure (\<lambda>w. length (passwords w))"
    by (auto simp: ask_password_def print_def split: list.splits)
next
  fix w x1 w1 b password x2 w2 x3 w3 answer
  assume "(x1, w1) = ask_password w" "x1 = Inr b" "b = Some password"
    "(x2, w2) = check_password_pwned password w1"
    "(x3, w3) = confirm AskUtiliserQuandMeme (print MsgCompromis w2)"
  then show "(w3, w) \<in> measure (\<lambda>w. length (passwords w))"
    by (auto simp: ask_password_def print_def check_password_pwned_def confirm_def Let_def
        split: list.splits http_result.splits if_splits sum.splits)
qed

declare ask_password_and_verify.simps [simp del]

subsection \<open>Encryption\<close>

text \<open>
  Lines 81 to 108 of \<open>_handle_encrypt\<close>: the key, a fresh nonce, the whole file read and
  encrypted at once, and the container written as signature, nonce, ciphertext with its tag.
\<close>

definition encrypt_file ::
  "primitives \<Rightarrow> path \<Rightarrow> path \<Rightarrow> string \<Rightarrow> world \<Rightarrow> (exn + unit) \<times> world" where
  "encrypt_file P p output_path password w =
     (let key = derive_key P password;
          (iv, w1) = urandom IV_LEN w
      in case getsize w1 p of
           Inl e \<Rightarrow> (Inl e, w1)
         | Inr file_size \<Rightarrow>
             (case open_rb w1 p of
                Inl e \<Rightarrow> (Inl e, w1)
              | Inr data \<Rightarrow>
                  (case aesgcm_encrypt P key iv data of
                     None \<Rightarrow> (Inl OverflowError, w1)
                   | Some encrypted \<Rightarrow>
                       write_wb output_path (HEADER_SIGNATURE @ iv @ encrypted) w1)))"

text \<open>Lines 81 to 114: the container is written, then the original is deleted on request.\<close>

definition encrypt_and_clean ::
  "primitives \<Rightarrow> path \<Rightarrow> path \<Rightarrow> string \<Rightarrow> world \<Rightarrow> (exn + unit) \<times> world" where
  "encrypt_and_clean P p output_path password w =
     (case encrypt_file P p output_path password w of
        (Inl e, w1) \<Rightarrow> (Inl e, w1)
      | (Inr u, w1) \<Rightarrow>
          (case confirm (AskSupprimerOriginal p) (print (MsgChiffreCree output_path) w1) of
             (Inl e, w2) \<Rightarrow> (Inl e, w2)
           | (Inr answer, w2) \<Rightarrow>
               if answer then
                 (case remove p w2 of
                    (Inl e, w3) \<Rightarrow> (Inl e, w3)
                  | (Inr u, w3) \<Rightarrow> (Inr (), print MsgOriginalSupprime w3))
               else (Inr (), w2)))"

text \<open>Lines 75 to 114: the output path, and the question when something is already there.\<close>

definition encrypt_with_password ::
  "primitives \<Rightarrow> path \<Rightarrow> string \<Rightarrow> world \<Rightarrow> (exn + unit) \<times> world" where
  "encrypt_with_password P p password w =
     (let output_path = p @ ''.yjch''
      in if path_exists w output_path then
           (case confirm (AskEcraser output_path) w of
              (Inl e, w1) \<Rightarrow> (Inl e, w1)
            | (Inr answer, w1) \<Rightarrow>
                if answer = False then (Inr (), print MsgOperationAnnulee w1)
                else encrypt_and_clean P p output_path password w1)
         else encrypt_and_clean P p output_path password w)"

definition handle_encrypt :: "primitives \<Rightarrow> world \<Rightarrow> (exn + unit) \<times> world" where
  "handle_encrypt P w =
     (case ask_file_path w of
        (Inl e, w1) \<Rightarrow> (Inl e, w1)
      | (Inr None, w1) \<Rightarrow> (Inr (), print (MsgFichierNonTrouve None) w1)
      | (Inr (Some p), w1) \<Rightarrow>
          if p = [] \<or> \<not> isfile w1 p then (Inr (), print (MsgFichierNonTrouve (Some p)) w1)
          else (case is_already_encrypted p w1 of
                  (Inl e, w2) \<Rightarrow> (Inl e, w2)
                | (Inr True, w2) \<Rightarrow> (Inr (), print MsgDejaChiffre w2)
                | (Inr False, w2) \<Rightarrow>
                    (case ask_password_and_verify w2 of
                       (Inl e, w3) \<Rightarrow> (Inl e, w3)
                     | (Inr password, w3) \<Rightarrow> encrypt_with_password P p password w3)))"

subsection \<open>Decryption\<close>

text \<open>
  The body of the \<open>try\<close> (lines 134 to 158, with the key derived just before): the nonce is
  the twelve bytes after the first eight, the rest is the ciphertext with its tag, and the
  plaintext is written only when the decryption returns.
\<close>

definition decrypt_file ::
  "primitives \<Rightarrow> path \<Rightarrow> path \<Rightarrow> string \<Rightarrow> world \<Rightarrow> (exn + unit) \<times> world" where
  "decrypt_file P p output_path password w =
     (let key = derive_key P password
      in case open_rb w p of
           Inl e \<Rightarrow> (Inl e, w)
         | Inr bs \<Rightarrow>
             (let iv = take IV_LEN (drop HEADER_LEN bs);
                  encrypted_data = drop (HEADER_LEN + IV_LEN) bs
              in case aesgcm_decrypt P key iv encrypted_data of
                   None \<Rightarrow> (Inl InvalidTag, w)
                 | Some decrypted \<Rightarrow> write_wb output_path decrypted w))"

text \<open>
  The \<open>while True\<close> loop of \<open>_handle_decrypt\<close> (lines 129 to 165). It returns \<open>True\<close> when
  it is left by \<open>break\<close> and \<open>False\<close> when the method returns from inside it. Whatever the
  \<open>try\<close> raises is caught by \<open>except Exception\<close>.
\<close>

function decrypt_loop ::
  "primitives \<Rightarrow> path \<Rightarrow> path \<Rightarrow> world \<Rightarrow> (exn + bool) \<times> world" where
  "decrypt_loop P p output_path w =
     (case ask_password w of
        (Inl e, w1) \<Rightarrow> (Inl e, w1)
      | (Inr None, w1) \<Rightarrow> decrypt_loop P p output_path (print MsgMotDePasseVide w1)
      | (Inr (Some password), w1) \<Rightarrow>
          if password = [] then decrypt_loop P p output_path (print MsgMotDePasseVide w1)
          else (case decrypt_file P p output_path password w1 of
                  (Inr u, w2) \<Rightarrow> (Inr True, w2)
                | (Inl e, w2) \<Rightarrow>
                    (case confirm AskReessayer (print MsgIncorrectOuCorrompu w2) of
                       (Inl e', w3) \<Rightarrow> (Inl e', w3)
                     | (Inr answer, w3) \<Rightarrow>
                         if \<not> answer then (Inr False, print MsgDechiffrementAnnule w3)
                         else decrypt_loop P p output_path w3)))"
  by pat_completeness auto
termination
proof (relation "measure (\<lambda>(P, p, output_path, w). length (passwords w))")
  show "wf (measure (\<lambda>(P :: primitives, p :: path, output_path :: path, w).
    length (passwords w)))"
    by simp
next
  fix P :: primitives and p output_path :: path and w x1 w1 b
  assume "(x1, w1) = ask_password w" "x1 = Inr b" "b = None"
  then show "((P, p, output_path, print MsgMotDePasseVide w1), P, p, output_path, w)
      \<in> measure (\<lambda>(P, p, output_path, w). length (passwords w))"
    by (auto simp: ask_password_def print_def split: list.splits)
next
  fix P :: primitives and p output_path :: path and w x1 w1 b password
  assume "(x1, w1) = ask_password w" "x1 = Inr b" "b = Some password" "password = []"
  then show "((P, p, output_path, print MsgMotDePasseVide w1), P, p, output_path, w)
      \<in> measure (\<lambda>(P, p, output_path, w). length (passwords w))"
    by (auto simp: ask_password_def print_def split: list.splits)
next
  fix P :: primitives and p output_path :: path and w x1 w1 b password x2 w2 x3 w3
  assume "(x1, w1) = ask_password w" "x1 = Inr b" "b = Some password"
    "(x2, w2) = decrypt_file P p output_path password w1"
    "(x3, w3) = confirm AskReessayer (print MsgIncorrectOuCorrompu w2)"
  then show "((P, p, output_path, w3), P, p, output_path, w)
      \<in> measure (\<lambda>(P, p, output_path, w). length (passwords w))"
    by (auto simp: ask_password_def print_def decrypt_file_def write_wb_def confirm_def Let_def
        split: list.splits sum.splits option.splits node.splits if_splits)
qed

declare decrypt_loop.simps [simp del]

text \<open>
  \<open>_handle_decrypt\<close>. The default output path is \<open>path.rsplit(".yjch", 1)[0]\<close>.
\<close>

definition output_default :: "path \<Rightarrow> exn + path" where
  "output_default p =
     (case rsplit1 ''.yjch'' p of Inl e \<Rightarrow> Inl e | Inr parts \<Rightarrow> index0 parts)"

definition decrypt_to_output ::
  "primitives \<Rightarrow> path \<Rightarrow> path \<Rightarrow> world \<Rightarrow> (exn + unit) \<times> world" where
  "decrypt_to_output P p output_path w =
     (case decrypt_loop P p output_path w of
        (Inl e, w1) \<Rightarrow> (Inl e, w1)
      | (Inr False, w1) \<Rightarrow> (Inr (), w1)
      | (Inr True, w1) \<Rightarrow>
          (case confirm (AskSupprimerChiffre p) (print (MsgDechiffreCree output_path) w1) of
             (Inl e, w2) \<Rightarrow> (Inl e, w2)
           | (Inr answer, w2) \<Rightarrow>
               if answer then
                 (case remove p w2 of
                    (Inl e, w3) \<Rightarrow> (Inl e, w3)
                  | (Inr u, w3) \<Rightarrow> (Inr (), print MsgChiffreSupprime w3))
               else (Inr (), w2)))"

definition handle_decrypt :: "primitives \<Rightarrow> world \<Rightarrow> (exn + unit) \<times> world" where
  "handle_decrypt P w =
     (case ask_file_path w of
        (Inl e, w1) \<Rightarrow> (Inl e, w1)
      | (Inr None, w1) \<Rightarrow> (Inr (), print (MsgFichierNonTrouve None) w1)
      | (Inr (Some p), w1) \<Rightarrow>
          if p = [] \<or> \<not> isfile w1 p then (Inr (), print (MsgFichierNonTrouve (Some p)) w1)
          else (case is_already_encrypted p w1 of
                  (Inl e, w2) \<Rightarrow> (Inl e, w2)
                | (Inr False, w2) \<Rightarrow> (Inr (), print MsgPasChiffre w2)
                | (Inr True, w2) \<Rightarrow>
                    (case output_default p of
                       Inl e \<Rightarrow> (Inl e, w2)
                     | Inr dflt \<Rightarrow>
                         (case ask_output_path dflt w2 of
                            (Inl e, w3) \<Rightarrow> (Inl e, w3)
                          | (Inr output_path, w3) \<Rightarrow> decrypt_to_output P p output_path w3))))"

section \<open>What the library promises, and a stand-in to run the model\<close>

text \<open>
  The facts about the library the proofs rest on: a SHA-256 digest has 32 bytes; under a key
  of 32 bytes and a nonce of 12 bytes, what AES-GCM encrypted it decrypts to the same data,
  and the ciphertext is the data's length plus a tag of 16 bytes.
\<close>

definition library_contract :: "primitives \<Rightarrow> bool" where
  "library_contract P =
     ((\<forall>m. length (sha256 P m) = 32) \<and>
      (\<forall>key nonce data ct.
         length key = 32 \<and> length nonce = 12 \<and> aesgcm_encrypt P key nonce data = Some ct \<longrightarrow>
         aesgcm_decrypt P key nonce ct = Some data \<and> length ct = length data + 16))"

text \<open>
  A stand-in with the interface and the contract of the library and none of its security:
  the digest is the message cut or filled to 32 bytes, the data is masked with one byte made
  of key and nonce, and the tag repeats a checksum.
  It gives the parameters of the model a value, so that statements can be run on examples.
\<close>

definition standin_sha256 :: "bytes \<Rightarrow> bytes" where
  "standin_sha256 m = take 32 (m @ replicate 32 0)"

definition standin_mask :: "bytes \<Rightarrow> bytes \<Rightarrow> byte" where
  "standin_mask key nonce = foldr (XOR) (key @ nonce) 0"

definition standin_tag :: "bytes \<Rightarrow> bytes \<Rightarrow> bytes \<Rightarrow> bytes" where
  "standin_tag key nonce body = replicate 16 (foldr (+) body (standin_mask key nonce))"

definition standin_encrypt :: "bytes \<Rightarrow> bytes \<Rightarrow> bytes \<Rightarrow> bytes option" where
  "standin_encrypt key nonce data =
     (let body = map (\<lambda>b. b XOR standin_mask key nonce) data
      in Some (body @ standin_tag key nonce body))"

definition standin_decrypt :: "bytes \<Rightarrow> bytes \<Rightarrow> bytes \<Rightarrow> bytes option" where
  "standin_decrypt key nonce ct =
     (if length ct < 16 then None
      else (let body = take (length ct - 16) ct
            in if drop (length ct - 16) ct = standin_tag key nonce body
               then Some (map (\<lambda>b. b XOR standin_mask key nonce) body)
               else None))"

definition standin :: primitives where
  "standin =
     \<lparr>sha256 = standin_sha256, aesgcm_encrypt = standin_encrypt,
      aesgcm_decrypt = standin_decrypt\<rparr>"

text \<open>
  A small world for the examples: one readable and writable file \<open>notes\<close> holding
  \<open>hello world\<close>, new files allowed everywhere, no answers yet, no network.
\<close>

definition hello :: bytes where
  "hello = utf8 ''hello world''"

definition demo_world :: world where
  "demo_world =
     \<lparr>files = [''notes'' \<mapsto> Regular \<lparr>content = hello, readable = True, writable = True\<rparr>],
      creatable = (\<lambda>p. True),
      texts = [], passwords = [], confirms = [],
      entropy = (\<lambda>i. of_nat i), drawn = 0,
      net = (\<lambda>url. ConnectionFailed),
      sent = [], console = [], asked = []\<rparr>"

text \<open>
  A container made with the stand-in for the password of the specification's scenario, kept
  under a name without the suffix, and a session that decrypts it: the operator names the
  file, takes the proposed output path, gives the password and keeps the container.
\<close>

definition demo_password :: string where
  "demo_password = ''Tr0ub4dor&3''"

definition demo_iv :: bytes where
  "demo_iv = map of_nat [0..<12]"

definition demo_container :: bytes where
  "demo_container =
     (case standin_encrypt (derive_key standin demo_password) demo_iv hello of
        None \<Rightarrow> []
      | Some ct \<Rightarrow> HEADER_SIGNATURE @ demo_iv @ ct)"

definition vault_world :: world where
  "vault_world =
     demo_world\<lparr>files := [''vault'' \<mapsto>
       Regular \<lparr>content = demo_container, readable = True, writable = True\<rparr>]\<rparr>"

definition vault_session :: world where
  "vault_session =
     vault_world\<lparr>texts := [Some ''vault'', None], passwords := [Some demo_password],
       confirms := [False]\<rparr>"

text \<open>\<open>sep in s\<close>: the separator occurs somewhere in the string.\<close>

fun occurs_in :: "string \<Rightarrow> string \<Rightarrow> bool" where
  "occurs_in sep [] = (sep = [])"
| "occurs_in sep (c # cs) = (take (length sep) (c # cs) = sep \<or> occurs_in sep cs)"



text \<open>
  The world after a failed attempt of the decryption loop that was followed by the question
  whether to retry: the password and the answer are used up, the failure is on the console
  and the question is on record. Nothing else differs.
\<close>

definition after_failure :: "world \<Rightarrow> world" where
  "after_failure w =
     w\<lparr>passwords := tl (passwords w), confirms := tl (confirms w),
       console := console w @ [MsgIncorrectOuCorrompu], asked := asked w @ [AskReessayer]\<rparr>"

text \<open>
  Sessions of the decryption loop: one where the container is gone when it is read, and one
  on the container of \<open>vault\<close> with an empty password, a wrong one and the right one.
\<close>

definition gone_session :: world where
  "gone_session =
     demo_world\<lparr>files := Map.empty, passwords := [Some demo_password, Some ''second''],
       confirms := [True, False]\<rparr>"




text \<open>What password acquisition leaves alone.\<close>

definition same_storage :: "world \<Rightarrow> world \<Rightarrow> bool" where
  "same_storage w w' =
     (files w' = files w \<and> creatable w' = creatable w \<and> texts w' = texts w \<and>
      entropy w' = entropy w \<and> drawn w' = drawn w \<and> net w' = net w)"

text \<open>
  More worlds for the examples: the output path of \<open>notes\<close> is taken and the operator
  declines to overwrite it (with the world at the time of that question); the breach service
  answers with an error, or with an empty list; \<open>notes\<close> has been encrypted.
\<close>

definition occupied_session :: world where
  "occupied_session =
     demo_world\<lparr>files :=
         [''notes'' \<mapsto> Regular \<lparr>content = hello, readable = True, writable = True\<rparr>,
          ''notes.yjch'' \<mapsto> Regular \<lparr>content = [1, 2, 3], readable = True, writable = True\<rparr>],
       texts := [Some ''notes''], passwords := [Some demo_password], confirms := [False]\<rparr>"

definition error_world :: world where
  "error_world = demo_world\<lparr>net := (\<lambda>url. Response 503 [])\<rparr>"

definition empty_answer_world :: world where
  "empty_answer_world = demo_world\<lparr>net := (\<lambda>url. Response 200 [])\<rparr>"

definition encrypted_world :: world where
  "encrypted_world =
     demo_world\<lparr>drawn := 12,
       files := (files demo_world)(''notes.yjch'' \<mapsto>
         Regular \<lparr>content = demo_container, readable = True, writable = True\<rparr>)\<rparr>"

definition occupied_asked :: world where
  "occupied_asked =
     occupied_session\<lparr>texts := [], passwords := [],
       sent := [range_url (take 5 (sha1_hex_upper demo_password))],
       console := [MsgErreurConnexion]\<rparr>"






section \<open>Facts about the string helpers\<close>

lemma rfind_from_None_iff:
  "rfind_from sep s n = None \<longleftrightarrow> (\<forall>j\<le>n. take (length sep) (drop j s) \<noteq> sep)"
  by (induction n) (auto simp: le_Suc_eq)

lemma rfind_from_Some_iff:
  "rfind_from sep s n = Some i \<longleftrightarrow>
     i \<le> n \<and> take (length sep) (drop i s) = sep \<and>
     (\<forall>j. i < j \<and> j \<le> n \<longrightarrow> take (length sep) (drop j s) \<noteq> sep)"
proof (induction n)
  case 0
  then show ?case by auto
next
  case (Suc n)
  show ?case
  proof (cases "take (length sep) (drop (Suc n) s) = sep")
    case True
    then show ?thesis
      by (auto simp: le_Suc_eq)
  next
    case False
    then show ?thesis
      using Suc by (auto simp: le_Suc_eq)
  qed
qed

lemma occurs_in_iff:
  "occurs_in sep s \<longleftrightarrow> (\<exists>j\<le>length s. take (length sep) (drop j s) = sep)"
proof (induction s)
  case Nil
  then show ?case by auto
next
  case (Cons c cs)
  show ?case
  proof
    assume "occurs_in sep (c # cs)"
    then consider "take (length sep) (c # cs) = sep" | "occurs_in sep cs" by auto
    then show "\<exists>j\<le>length (c # cs). take (length sep) (drop j (c # cs)) = sep"
    proof cases
      case 1
      then have "take (length sep) (drop 0 (c # cs)) = sep" by simp
      then show ?thesis by blast
    next
      case 2
      then obtain j where "j \<le> length cs" "take (length sep) (drop j cs) = sep"
        using Cons by auto
      then have "Suc j \<le> length (c # cs) \<and> take (length sep) (drop (Suc j) (c # cs)) = sep"
        by simp
      then show ?thesis by blast
    qed
  next
    assume "\<exists>j\<le>length (c # cs). take (length sep) (drop j (c # cs)) = sep"
    then obtain j where j: "j \<le> length (c # cs)" "take (length sep) (drop j (c # cs)) = sep"
      by blast
    show "occurs_in sep (c # cs)"
    proof (cases j)
      case 0
      then show ?thesis using j by simp
    next
      case (Suc k)
      then have "k \<le> length cs \<and> take (length sep) (drop k cs) = sep" using j by simp
      then have "occurs_in sep cs" using Cons by blast
      then show ?thesis by simp
    qed
  qed
qed

lemma occurs_in_append_iff: "occurs_in sep s \<longleftrightarrow> (\<exists>a b. s = a @ sep @ b)"
proof
  assume "occurs_in sep s"
  then obtain j where j: "j \<le> length s" "take (length sep) (drop j s) = sep"
    using occurs_in_iff by blast
  have "s = take j s @ take (length sep) (drop j s) @ drop (length sep) (drop j s)"
    by (simp only: append_take_drop_id)
  then have "s = take j s @ sep @ drop (length sep) (drop j s)" using j by simp
  then show "\<exists>a b. s = a @ sep @ b" by blast
next
  assume "\<exists>a b. s = a @ sep @ b"
  then obtain a b where "s = a @ sep @ b" by blast
  then have "length a \<le> length s \<and> take (length sep) (drop (length a) s) = sep" by simp
  then show "occurs_in sep s" using occurs_in_iff by blast
qed

lemma rsplit1_absent:
  assumes "sep \<noteq> []" "\<not> occurs_in sep s"
  shows "rsplit1 sep s = Inr [s]"
proof -
  have "\<forall>j\<le>length s. take (length sep) (drop j s) \<noteq> sep"
    using assms occurs_in_iff by blast
  then have "rfind_from sep s (length s - length sep) = None"
    by (simp add: rfind_from_None_iff)
  then show ?thesis
    using assms by (simp add: rsplit1_def)
qed

lemma rsplit1_last:
  assumes "sep \<noteq> []" "hd sep \<notin> set (tl sep)" "\<not> occurs_in sep b"
  shows "rsplit1 sep (a @ sep @ b) = Inr [a, b]"
proof -
  let ?s = "a @ sep @ b"
  have later: "take (length sep) (drop j ?s) \<noteq> sep"
    if "length a < j" "j \<le> length ?s - length sep" for j
  proof -
    define k where "k = j - length a"
    have k: "0 < k" "drop j ?s = drop k (sep @ b)"
      using that by (auto simp: k_def)
    show ?thesis
    proof (cases "k < length sep")
      case True
      have "sep ! k \<in> set (tl sep)"
        using True k(1) by (cases sep; cases k) auto
      then have "sep ! k \<noteq> hd sep"
        using assms(2) by auto
      moreover have "hd (take (length sep) (drop k (sep @ b))) = sep ! k"
        using True assms(1) by (simp add: hd_drop_conv_nth nth_append)
      ultimately show ?thesis
        using k(2) by auto
    next
      case False
      then have "drop k (sep @ b) = drop (k - length sep) b"
        by simp
      moreover have "k - length sep \<le> length b"
        using that by (simp add: k_def)
      ultimately show ?thesis
        using k(2) assms(3) occurs_in_iff by auto
    qed
  qed
  have "rfind_from sep ?s (length ?s - length sep) = Some (length a)"
  proof (rule rfind_from_Some_iff [THEN iffD2], intro conjI)
    show "length a \<le> length ?s - length sep"
      by simp
    show "take (length sep) (drop (length a) ?s) = sep"
      by simp
    show "\<forall>j. length a < j \<and> j \<le> length ?s - length sep \<longrightarrow>
      take (length sep) (drop j ?s) \<noteq> sep"
      using later by blast
  qed
  then show ?thesis
    using assms(1) by (simp add: rsplit1_def)
qed

lemma output_default_absent:
  assumes "\<not> occurs_in ''.yjch'' p"
  shows "output_default p = Inr p"
  using rsplit1_absent [OF _ assms] by (simp add: output_default_def index0_def)

lemma output_default_last:
  assumes "\<not> occurs_in ''.yjch'' b"
  shows "output_default (a @ ''.yjch'' @ b) = Inr a"
  using rsplit1_last [OF _ _ assms, of a] by (simp add: output_default_def index0_def)

section \<open>Facts about the stand-in and the examples\<close>

lemma standin_contract: "library_contract standin"
proof -
  have inv: "(b XOR m) XOR m = b" for m b :: byte
    by (simp add: xor.assoc)
  show ?thesis
    unfolding library_contract_def
    by (auto simp: standin_def standin_sha256_def standin_encrypt_def standin_decrypt_def
        standin_tag_def Let_def comp_def inv)
qed

lemma header_length: "length HEADER_SIGNATURE = 8"
  by (simp add: HEADER_SIGNATURE_def)

lemma demo_container_length: "length demo_container = 47"
  by (simp add: demo_container_def standin_encrypt_def Let_def HEADER_SIGNATURE_def demo_iv_def
     hello_def utf8_def utf8_char_def standin_tag_def)

lemma demo_container_header: "take 8 demo_container = HEADER_SIGNATURE"
  by (simp add: demo_container_def standin_encrypt_def Let_def HEADER_SIGNATURE_def)

lemma demo_container_decrypts: "standin_decrypt (derive_key standin demo_password) (take 12 (drop 8 demo_container))
      (drop 20 demo_container) = Some hello"
  by (simp add: demo_container_def standin_encrypt_def Let_def HEADER_SIGNATURE_def demo_iv_def
     hello_def utf8_def utf8_char_def standin_tag_def standin_decrypt_def comp_def xor.assoc)


section \<open>One turn of the decryption loop\<close>



lemma decrypt_loop_success:
  "passwords w = Some pw # ps \<Longrightarrow> pw \<noteq> [] \<Longrightarrow>
   decrypt_file P p out pw (w\<lparr>passwords := ps\<rparr>) = (Inr u, w2) \<Longrightarrow>
   decrypt_loop P p out w = (Inr True, w2)"
  by (subst decrypt_loop.simps) (simp add: ask_password_def)

lemma decrypt_loop_retry:
  "passwords w = Some pw # ps \<Longrightarrow> pw \<noteq> [] \<Longrightarrow>
   decrypt_file P p out pw (w\<lparr>passwords := ps\<rparr>) = (Inl e, w2) \<Longrightarrow>
   confirms w2 = True # cs \<Longrightarrow>
   decrypt_loop P p out w =
     decrypt_loop P p out
       ((print MsgIncorrectOuCorrompu w2)\<lparr>asked := asked w2 @ [AskReessayer], confirms := cs\<rparr>)"
  by (subst decrypt_loop.simps) (simp add: ask_password_def confirm_def print_def)

lemma decrypt_loop_abandon:
  "passwords w = Some pw # ps \<Longrightarrow> pw \<noteq> [] \<Longrightarrow>
   decrypt_file P p out pw (w\<lparr>passwords := ps\<rparr>) = (Inl e, w2) \<Longrightarrow>
   confirms w2 = False # cs \<Longrightarrow>
   decrypt_loop P p out w =
     (Inr False, print MsgDechiffrementAnnule
       ((print MsgIncorrectOuCorrompu w2)\<lparr>asked := asked w2 @ [AskReessayer], confirms := cs\<rparr>))"
  by (subst decrypt_loop.simps) (simp add: ask_password_def confirm_def print_def)



lemma decrypt_file_read_error:
  "open_rb w p = Inl e \<Longrightarrow> decrypt_file P p out pw w = (Inl e, w)"
  by (simp add: decrypt_file_def)

lemma write_wb_success:
  assumes "write_wb out bs w = (Inr u, w2)"
  shows "\<exists>g. content g = bs \<and> w2 = w\<lparr>files := (files w)(out \<mapsto> Regular g)\<rparr>"
proof (cases "files w out")
  case None
  then have "w2 = w\<lparr>files := (files w)(out \<mapsto>
      Regular \<lparr>content = bs, readable = True, writable = True\<rparr>)\<rparr>"
    using assms by (simp add: write_wb_def split: if_splits)
  then show ?thesis
    by (intro exI [of _ "\<lparr>content = bs, readable = True, writable = True\<rparr>"]) simp
next
  case (Some n)
  show ?thesis
  proof (cases n)
    case (Regular f)
    then have "w2 = w\<lparr>files := (files w)(out \<mapsto> Regular (f\<lparr>content := bs\<rparr>))\<rparr>"
      using assms Some by (simp add: write_wb_def split: if_splits)
    then show ?thesis
      by (intro exI [of _ "f\<lparr>content := bs\<rparr>"]) simp
  next
    case Directory
    then show ?thesis
      using assms Some by (simp add: write_wb_def)
  qed
qed

lemma write_wb_failure:
  "write_wb out bs w = (Inl e, w2) \<Longrightarrow> w2 = w"
  by (auto simp: write_wb_def split: option.splits node.splits if_splits)



section \<open>The default output path of decryption\<close>

text \<open>
  Claim C10. The default output path of \<open>_handle_decrypt\<close> is the part of the input path
  before the last occurrence of \<open>.yjch\<close>: a path \<open>a.yjch b\<close> whose rest \<open>b\<close> holds no further
  occurrence gives \<open>a\<close>, so that \<open>doc.yjch.bak\<close> gives \<open>doc\<close>; a path without \<open>.yjch\<close> gives
  the path itself. Then, for a container under such a path, an operator who takes the
  proposed output path and gives the right password has the container replaced by its
  plaintext (here the operator keeps the file when asked whether to delete it).
\<close>

theorem default_output_path:
  "(\<not> occurs_in ''.yjch'' b \<longrightarrow> output_default (a @ ''.yjch'' @ b) = Inr a) \<and>
   output_default ''doc.yjch.bak'' = Inr ''doc'' \<and>
   (\<not> occurs_in ''.yjch'' p \<longrightarrow> output_default p = Inr p) \<and>
   (\<not> occurs_in ''.yjch'' p \<and> p \<noteq> [] \<and>
    files w p = Some (Regular f) \<and> readable f \<and> writable f \<and>
    take HEADER_LEN (content f) = HEADER_SIGNATURE \<and>
    texts w = Some p # answer # ts \<and> (answer = None \<or> answer = Some p) \<and>
    passwords w = Some password # ps \<and> password \<noteq> [] \<and>
    aesgcm_decrypt P (derive_key P password) (take IV_LEN (drop HEADER_LEN (content f)))
      (drop (HEADER_LEN + IV_LEN) (content f)) = Some plain \<and>
    confirms w = False # cs \<longrightarrow>
    fst (handle_decrypt P w) = Inr () \<and>
    files (snd (handle_decrypt P w)) = (files w)(p \<mapsto> Regular (f\<lparr>content := plain\<rparr>)))"
proof (intro conjI impI)
  show "output_default (a @ ''.yjch'' @ b) = Inr a" if "\<not> occurs_in ''.yjch'' b"
    using that by (rule output_default_last)
  show "output_default ''doc.yjch.bak'' = Inr ''doc''"
    using output_default_last [of "''.bak''" "''doc''"] by simp
  show "output_default p = Inr p" if "\<not> occurs_in ''.yjch'' p"
    using that by (rule output_default_absent)
next
  assume h: "\<not> occurs_in ''.yjch'' p \<and> p \<noteq> [] \<and>
    files w p = Some (Regular f) \<and> readable f \<and> writable f \<and>
    take HEADER_LEN (content f) = HEADER_SIGNATURE \<and>
    texts w = Some p # answer # ts \<and> (answer = None \<or> answer = Some p) \<and>
    passwords w = Some password # ps \<and> password \<noteq> [] \<and>
    aesgcm_decrypt P (derive_key P password) (take IV_LEN (drop HEADER_LEN (content f)))
      (drop (HEADER_LEN + IV_LEN) (content f)) = Some plain \<and>
    confirms w = False # cs"
  define w3 where "w3 = w\<lparr>texts := ts\<rparr>"
  define w4 where
    "w4 = w3\<lparr>passwords := ps, files := (files w)(p \<mapsto> Regular (f\<lparr>content := plain\<rparr>))\<rparr>"
  have dflt: "output_default p = Inr p"
    using h output_default_absent by blast
  have "decrypt_file P p p password (w3\<lparr>passwords := ps\<rparr>) = (Inr (), w4)"
    using h by (simp add: decrypt_file_def open_rb_def write_wb_def w3_def w4_def Let_def)
  then have loop: "decrypt_loop P p p w3 = (Inr True, w4)"
    using h decrypt_loop_success [of w3 password ps P p p "()" w4] by (simp add: w3_def)
  have out: "decrypt_to_output P p p w3 =
      (Inr (), (print (MsgDechiffreCree p) w4)\<lparr>asked := asked w4 @ [AskSupprimerChiffre p],
         confirms := cs\<rparr>)"
    unfolding decrypt_to_output_def loop
    using h by (simp add: confirm_def print_def w4_def w3_def)
  have "handle_decrypt P w = decrypt_to_output P p p w3"
    using h dflt
    by (auto simp: handle_decrypt_def ask_file_path_def isfile_def is_already_encrypted_def
        open_rb_def ask_output_path_def w3_def)
  then show "fst (handle_decrypt P w) = Inr ()"
    and "files (snd (handle_decrypt P w)) = (files w)(p \<mapsto> Regular (f\<lparr>content := plain\<rparr>))"
    using out by (simp_all add: print_def w4_def w3_def)
qed


theorem default_output_path_witness:
  "output_default ''doc.yjch.bak'' = Inr ''doc'' \<and>
   output_default ''vault'' = Inr ''vault'' \<and>
   fst (handle_decrypt standin vault_session) = Inr () \<and>
   files (snd (handle_decrypt standin vault_session)) =
     [''vault'' \<mapsto> Regular \<lparr>content = hello, readable = True, writable = True\<rparr>]"
proof -
  have len: "HEADER_LEN = 8" "IV_LEN = 12"
    by (simp_all add: HEADER_LEN_def IV_LEN_def header_length)
  have nonempty: "demo_password \<noteq> []"
    by (simp add: demo_password_def)
  have dec: "aesgcm_decrypt standin (derive_key standin demo_password)
      (take 12 (drop 8 demo_container)) (drop 20 demo_container) = Some hello"
    using demo_container_decrypts by (simp add: standin_def)
  show ?thesis
    using default_output_path [where b = "''.bak''" and a = "''doc''" and p = "''vault''"
        and w = vault_session and P = standin and answer = None and ts = "[]"
        and password = demo_password and ps = "[]" and plain = hello and cs = "[]"
        and f = "\<lparr>content = demo_container, readable = True, writable = True\<rparr>"]
    by (simp add: vault_session_def vault_world_def demo_world_def len demo_container_header dec nonempty)
qed

section \<open>Format detection\<close>




section \<open>The decryption loop\<close>



text \<open>
  Claim C5, as the code has it. The container is read inside the \<open>try\<close> whose handler is
  \<open>except Exception\<close>: when \<open>open\<close> fails there, the loop prints the line of a wrong
  password, asks whether to retry and goes on as the operator says. Nothing is written.
\<close>

theorem read_failure_asks_retry:
  "open_rb w p = Inl e \<and> passwords w = Some password # ps \<and> password \<noteq> [] \<and>
   confirms w = answer # cs \<longrightarrow>
   decrypt_loop P p out w =
     (if answer then decrypt_loop P p out (after_failure w)
      else (Inr False, print MsgDechiffrementAnnule (after_failure w)))"
proof
  assume h: "open_rb w p = Inl e \<and> passwords w = Some password # ps \<and> password \<noteq> [] \<and>
    confirms w = answer # cs"
  let ?w1 = "w\<lparr>passwords := ps\<rparr>"
  have "open_rb ?w1 p = Inl e"
    using h by (simp add: open_rb_def)
  then have df: "decrypt_file P p out password ?w1 = (Inl e, ?w1)"
    by (rule decrypt_file_read_error)
  have w3: "(print MsgIncorrectOuCorrompu ?w1)\<lparr>asked := asked ?w1 @ [AskReessayer],
      confirms := cs\<rparr> = after_failure w"
    using h by (simp add: after_failure_def print_def)
  show "decrypt_loop P p out w =
     (if answer then decrypt_loop P p out (after_failure w)
      else (Inr False, print MsgDechiffrementAnnule (after_failure w)))"
  proof (cases answer)
    case True
    then show ?thesis
      using decrypt_loop_retry [of w password ps P p out e ?w1 cs] h df w3 by simp
  next
    case False
    then show ?thesis
      using decrypt_loop_abandon [of w password ps P p out e ?w1 cs] h df w3 by simp
  qed
qed

theorem read_failure_asks_retry_witness:
  "decrypt_loop standin ''vault'' ''out'' gone_session =
     (Inr False,
      gone_session\<lparr>passwords := [], confirms := [],
        console := [MsgIncorrectOuCorrompu, MsgIncorrectOuCorrompu, MsgDechiffrementAnnule],
        asked := [AskReessayer, AskReessayer]\<rparr>)"
proof -
  have ne: "demo_password \<noteq> []"
    by (simp add: demo_password_def)
  have "decrypt_loop standin ''vault'' ''out'' gone_session =
      decrypt_loop standin ''vault'' ''out'' (after_failure gone_session)"
    using read_failure_asks_retry [of gone_session "''vault''" "OSError FileNotFoundError"
        demo_password "[Some ''second'']" True "[False]" standin "''out''"] ne
    by (simp add: gone_session_def demo_world_def open_rb_def)
  also have "\<dots> = (Inr False,
      print MsgDechiffrementAnnule (after_failure (after_failure gone_session)))"
    using read_failure_asks_retry [of "after_failure gone_session" "''vault''"
        "OSError FileNotFoundError" "''second''" "[]" False "[]" standin "''out''"]
    by (simp add: gone_session_def demo_world_def open_rb_def after_failure_def)
  finally show ?thesis
    by (simp add: gone_session_def demo_world_def after_failure_def print_def)
qed

text \<open>
  The claim as written (the failure ends the operation at once, outside the retry loop)
  fails when the container is gone at the time it is read: the operator is asked twice
  whether to retry, and the second password is asked for in between.
\<close>

theorem read_failure_counterexample:
  "asked (snd (decrypt_loop standin ''vault'' ''out'' gone_session)) =
     [AskReessayer, AskReessayer] \<and>
   console (snd (decrypt_loop standin ''vault'' ''out'' gone_session)) =
     [MsgIncorrectOuCorrompu, MsgIncorrectOuCorrompu, MsgDechiffrementAnnule] \<and>
   passwords (snd (decrypt_loop standin ''vault'' ''out'' gone_session)) = []"
proof -
  have ne: "demo_password \<noteq> []"
    by (simp add: demo_password_def)
  let ?w1 = "gone_session\<lparr>passwords := [Some ''second'']\<rparr>"
  let ?w2 = "(print MsgIncorrectOuCorrompu ?w1)\<lparr>asked := asked ?w1 @ [AskReessayer],
    confirms := [False]\<rparr>"
  let ?w3 = "?w2\<lparr>passwords := []\<rparr>"
  have "decrypt_file standin ''vault'' ''out'' demo_password ?w1 =
      (Inl (OSError FileNotFoundError), ?w1)"
    by (simp add: decrypt_file_def open_rb_def gone_session_def demo_world_def)
  then have one: "decrypt_loop standin ''vault'' ''out'' gone_session =
      decrypt_loop standin ''vault'' ''out'' ?w2"
    using ne
    by (intro decrypt_loop_retry [where pw = demo_password])
      (simp_all add: gone_session_def demo_world_def)
  have "decrypt_file standin ''vault'' ''out'' ''second'' ?w3 =
      (Inl (OSError FileNotFoundError), ?w3)"
    by (simp add: decrypt_file_def open_rb_def gone_session_def demo_world_def print_def)
  then have two: "decrypt_loop standin ''vault'' ''out'' ?w2 =
      (Inr False, print MsgDechiffrementAnnule
        ((print MsgIncorrectOuCorrompu ?w3)\<lparr>asked := asked ?w3 @ [AskReessayer],
          confirms := []\<rparr>))"
    by (intro decrypt_loop_abandon [where pw = "''second''"])
      (simp_all add: gone_session_def demo_world_def print_def)
  show ?thesis
    unfolding one two by (simp add: gone_session_def demo_world_def print_def)
qed

section \<open>Password acquisition\<close>

lemma check_password_pwned_frame:
  assumes "check_password_pwned pw w = (b, w2)"
  shows "\<exists>msgs. w2 = w\<lparr>sent := sent w @ [range_url (take 5 (sha1_hex_upper pw))],
    console := console w @ msgs\<rparr>"
proof -
  let ?w1 = "w\<lparr>sent := sent w @ [range_url (take 5 (sha1_hex_upper pw))]\<rparr>"
  have "w2 = ?w1 \<or> w2 = print MsgErreurConnexion ?w1 \<or> w2 = print MsgErreurAPI ?w1"
    using assms
    by (auto simp: check_password_pwned_def Let_def
        split: http_result.splits if_splits sum.splits)
  then consider "w2 = ?w1\<lparr>console := console w @ []\<rparr>"
    | "w2 = ?w1\<lparr>console := console w @ [MsgErreurConnexion]\<rparr>"
    | "w2 = ?w1\<lparr>console := console w @ [MsgErreurAPI]\<rparr>"
    by (auto simp: print_def)
  then show ?thesis
    by cases blast+
qed

lemma ask_password_and_verify_interrupted:
  "passwords w = [] \<Longrightarrow> ask_password_and_verify w = (Inl AttributeError, w)"
  by (subst ask_password_and_verify.simps) (simp add: ask_password_def)

lemma ask_password_and_verify_empty:
  "passwords w = a # ps \<Longrightarrow> a = None \<or> a = Some [] \<Longrightarrow>
   ask_password_and_verify w =
     ask_password_and_verify (print MsgMotDePasseVide (w\<lparr>passwords := ps\<rparr>))"
  by (subst ask_password_and_verify.simps) (auto simp: ask_password_def)

lemma ask_password_and_verify_clean:
  "passwords w = Some pw # ps \<Longrightarrow> pw \<noteq> [] \<Longrightarrow>
   check_password_pwned pw (w\<lparr>passwords := ps\<rparr>) = (False, w2) \<Longrightarrow>
   ask_password_and_verify w = (Inr pw, w2)"
  by (subst ask_password_and_verify.simps) (simp add: ask_password_def)

lemma ask_password_and_verify_breached:
  "passwords w = Some pw # ps \<Longrightarrow> pw \<noteq> [] \<Longrightarrow>
   check_password_pwned pw (w\<lparr>passwords := ps\<rparr>) = (True, w2) \<Longrightarrow>
   ask_password_and_verify w =
     (case confirms w2 of
        [] \<Rightarrow> (Inl AttributeError,
                (print MsgCompromis w2)\<lparr>asked := asked w2 @ [AskUtiliserQuandMeme]\<rparr>)
      | c # cs \<Rightarrow>
          if c then (Inr pw, (print MsgCompromis w2)\<lparr>asked := asked w2 @ [AskUtiliserQuandMeme],
                       confirms := cs\<rparr>)
          else ask_password_and_verify
                 ((print MsgCompromis w2)\<lparr>asked := asked w2 @ [AskUtiliserQuandMeme],
                    confirms := cs\<rparr>))"
  by (subst ask_password_and_verify.simps)
    (simp add: ask_password_def confirm_def print_def split: list.splits)

lemma ask_password_and_verify_frame:
  "ask_password_and_verify w = (r, w') \<Longrightarrow> same_storage w w'"
proof (induction "passwords w" arbitrary: w)
  case Nil
  then show ?case
    using ask_password_and_verify_interrupted [of w] by (simp add: same_storage_def)
next
  case (Cons a ps)
  have pws: "passwords w = a # ps"
    using Cons.hyps(2) by simp
  let ?w1 = "w\<lparr>passwords := ps\<rparr>"
  show ?case
  proof (cases "a = None \<or> a = Some []")
    case True
    let ?w2 = "print MsgMotDePasseVide ?w1"
    have "ask_password_and_verify ?w2 = (r, w')"
      using ask_password_and_verify_empty [OF pws True] Cons.prems by simp
    moreover have "ps = passwords ?w2"
      by (simp add: print_def)
    ultimately have "same_storage ?w2 w'"
      by (rule Cons.hyps(1) [rotated])
    then show ?thesis
      by (simp add: same_storage_def print_def)
  next
    case False
    then obtain pw where a: "a = Some pw" "pw \<noteq> []"
      by (cases a) auto
    have pws': "passwords w = Some pw # ps"
      using pws a by simp
    obtain b w2 where chk: "check_password_pwned pw ?w1 = (b, w2)"
      by (cases "check_password_pwned pw ?w1")
    then obtain msgs where w2: "w2 = ?w1\<lparr>sent := sent ?w1 @ [range_url (take 5 (sha1_hex_upper pw))],
        console := console ?w1 @ msgs\<rparr>"
      using check_password_pwned_frame by blast
    show ?thesis
    proof (cases b)
      case False
      then have "ask_password_and_verify w = (Inr pw, w2)"
        using ask_password_and_verify_clean [OF pws' a(2)] chk by simp
      then show ?thesis
        using Cons.prems w2 by (auto simp: same_storage_def)
    next
      case True
      then have chk': "check_password_pwned pw ?w1 = (True, w2)"
        using chk by simp
      note step = ask_password_and_verify_breached [OF pws' a(2) chk']
      show ?thesis
      proof (cases "confirms w2")
        case Nil
        then show ?thesis
          using step Cons.prems w2 by (auto simp: same_storage_def print_def)
      next
        case (Cons c cs)
        let ?w3 = "(print MsgCompromis w2)\<lparr>asked := asked w2 @ [AskUtiliserQuandMeme],
          confirms := cs\<rparr>"
        show ?thesis
        proof (cases c)
          case True
          then show ?thesis
            using step Cons Cons.prems w2 by (auto simp: same_storage_def print_def)
        next
          case False
          then have "ask_password_and_verify ?w3 = (r, w')"
            using step Cons Cons.prems by simp
          moreover have "ps = passwords ?w3"
            using w2 by (simp add: print_def)
          ultimately have "same_storage ?w3 w'"
            by (rule Cons.hyps(1) [rotated])
          then show ?thesis
            using w2 by (simp add: same_storage_def print_def)
        qed
      qed
    qed
  qed
qed

section \<open>Encryption and the container\<close>

lemma lengths: "HEADER_LEN = 8" "IV_LEN = 12"
  by (simp_all add: HEADER_LEN_def IV_LEN_def header_length)

lemma urandom_length: "length (fst (urandom n w)) = n"
  by (simp add: urandom_def)

lemma encrypt_file_success:
  assumes "encrypt_file P p c password w = (Inr u, w1)" "open_rb w p = Inr data"
  shows "\<exists>ct g. aesgcm_encrypt P (derive_key P password) (fst (urandom IV_LEN w)) data = Some ct \<and>
    content g = HEADER_SIGNATURE @ fst (urandom IV_LEN w) @ ct \<and>
    w1 = (snd (urandom IV_LEN w))\<lparr>files := (files w)(c \<mapsto> Regular g)\<rparr>"
proof -
  let ?w0 = "snd (urandom IV_LEN w)"
  let ?iv = "fst (urandom IV_LEN w)"
  have files: "files ?w0 = files w"
    by (simp add: urandom_def)
  then have rd: "open_rb ?w0 p = Inr data"
    using assms(2) by (simp add: open_rb_def)
  obtain ct where ct: "aesgcm_encrypt P (derive_key P password) ?iv data = Some ct"
    and wr: "write_wb c (HEADER_SIGNATURE @ ?iv @ ct) ?w0 = (Inr u, w1)"
    using assms(1) rd
    by (auto simp: encrypt_file_def Let_def split_beta split: sum.splits option.splits)
  obtain g where "content g = HEADER_SIGNATURE @ ?iv @ ct"
    "w1 = ?w0\<lparr>files := (files ?w0)(c \<mapsto> Regular g)\<rparr>"
    using write_wb_success [OF wr] by blast
  then show ?thesis
    using ct files by auto
qed

lemma demo_encryption:
  "encrypt_file standin ''notes'' ''notes.yjch'' demo_password demo_world =
     (Inr (), encrypted_world)"
  by (simp add: encrypt_file_def urandom_def getsize_def open_rb_def write_wb_def lengths
      demo_world_def encrypted_world_def demo_container_def demo_iv_def standin_def
      standin_encrypt_def Let_def)

text \<open>
  Claim C7. Whenever \<open>_handle_encrypt\<close> gets to write the container of a plaintext, the
  file written is the signature (8 bytes, at offset 0), the nonce drawn from \<open>os.urandom\<close>
  (12 bytes, at offset 8) and what \<open>AESGCM.encrypt\<close> returned (from offset 20), which is the
  plaintext's length plus 16 bytes of tag: 8 + 12 + len + 16 bytes in all, 47 for a plaintext
  of 11 bytes.
\<close>

theorem container_layout:
  "library_contract P \<and> open_rb w p = Inr data \<and>
   encrypt_file P p c password w = (Inr u, w1) \<longrightarrow>
   (\<exists>g ct. files w1 c = Some (Regular g) \<and>
      aesgcm_encrypt P (derive_key P password) (fst (urandom IV_LEN w)) data = Some ct \<and>
      length (content g) = 8 + 12 + length data + 16 \<and>
      take 8 (content g) = HEADER_SIGNATURE \<and>
      take 12 (drop 8 (content g)) = fst (urandom IV_LEN w) \<and>
      drop 20 (content g) = ct \<and>
      length ct = length data + 16 \<and>
      (if length data = 11 then length (content g) = 47 else True))"
proof
  assume h: "library_contract P \<and> open_rb w p = Inr data \<and>
    encrypt_file P p c password w = (Inr u, w1)"
  let ?iv = "fst (urandom IV_LEN w)"
  obtain ct g where e: "aesgcm_encrypt P (derive_key P password) ?iv data = Some ct"
    "content g = HEADER_SIGNATURE @ ?iv @ ct"
    "w1 = (snd (urandom IV_LEN w))\<lparr>files := (files w)(c \<mapsto> Regular g)\<rparr>"
    using encrypt_file_success h by blast
  have iv: "length ?iv = 12"
    by (simp add: urandom_length lengths)
  have key: "length (derive_key P password) = 32"
    using h by (simp add: library_contract_def derive_key_def)
  have ct: "length ct = length data + 16"
    using h e(1) iv key unfolding library_contract_def by blast
  have "files w1 c = Some (Regular g)"
    using e(3) by simp
  moreover have "length (content g) = 8 + 12 + length data + 16"
    using e(2) iv ct by (simp add: header_length)
  moreover have "take 8 (content g) = HEADER_SIGNATURE"
    using e(2) by (simp add: header_length)
  moreover have "take 12 (drop 8 (content g)) = ?iv"
    using e(2) iv by (simp add: header_length)
  moreover have "drop 20 (content g) = ct"
    using e(2) iv by (simp add: header_length)
  ultimately show "\<exists>g ct. files w1 c = Some (Regular g) \<and>
      aesgcm_encrypt P (derive_key P password) (fst (urandom IV_LEN w)) data = Some ct \<and>
      length (content g) = 8 + 12 + length data + 16 \<and>
      take 8 (content g) = HEADER_SIGNATURE \<and>
      take 12 (drop 8 (content g)) = fst (urandom IV_LEN w) \<and>
      drop 20 (content g) = ct \<and>
      length ct = length data + 16 \<and>
      (if length data = 11 then length (content g) = 47 else True)"
    using e(1) ct by (intro exI [of _ g] exI [of _ ct]) simp
qed

theorem container_layout_witness:
  "(\<exists>g ct. files encrypted_world ''notes.yjch'' = Some (Regular g) \<and>
      aesgcm_encrypt standin (derive_key standin demo_password)
        (fst (urandom IV_LEN demo_world)) hello = Some ct \<and>
      length (content g) = 8 + 12 + length hello + 16 \<and>
      take 8 (content g) = HEADER_SIGNATURE \<and>
      take 12 (drop 8 (content g)) = fst (urandom IV_LEN demo_world) \<and>
      drop 20 (content g) = ct \<and>
      length ct = length hello + 16 \<and>
      length (content g) = 47) \<and>
   length hello = 11"
proof -
  have eleven: "length hello = 11"
    by (simp add: hello_def utf8_def utf8_char_def)
  have "open_rb demo_world ''notes'' = Inr hello"
    by (simp add: open_rb_def demo_world_def)
  then show ?thesis
    using container_layout [of standin demo_world "''notes''" hello "''notes.yjch''"
        demo_password "()" encrypted_world] standin_contract demo_encryption eleven
    by simp
qed

text \<open>
  Claim C1. A container written by the encryption path for the data of a file, read back
  and decrypted under the same password, passes the tag check and gives the data: the
  decryption path does with it exactly what writing the data to the output path does, so
  that the output file holds the data whenever it can be written.
\<close>

theorem encrypt_decrypt_round_trip:
  "library_contract P \<and> open_rb w p = Inr data \<and>
   encrypt_file P p c password w = (Inr u, w1) \<and> open_rb w1 c = Inr bs \<longrightarrow>
   aesgcm_decrypt P (derive_key P password) (take IV_LEN (drop HEADER_LEN bs))
     (drop (HEADER_LEN + IV_LEN) bs) = Some data \<and>
   decrypt_file P c out password w1 = write_wb out data w1 \<and>
   (fst (write_wb out data w1) = Inr () \<longrightarrow>
      (\<exists>g. files (snd (decrypt_file P c out password w1)) out = Some (Regular g) \<and>
           content g = data))"
proof
  assume h: "library_contract P \<and> open_rb w p = Inr data \<and>
    encrypt_file P p c password w = (Inr u, w1) \<and> open_rb w1 c = Inr bs"
  let ?iv = "fst (urandom IV_LEN w)"
  obtain ct g where e: "aesgcm_encrypt P (derive_key P password) ?iv data = Some ct"
    "content g = HEADER_SIGNATURE @ ?iv @ ct"
    "w1 = (snd (urandom IV_LEN w))\<lparr>files := (files w)(c \<mapsto> Regular g)\<rparr>"
    using encrypt_file_success h by blast
  have iv: "length ?iv = 12"
    by (simp add: urandom_length lengths)
  have key: "length (derive_key P password) = 32"
    using h by (simp add: library_contract_def derive_key_def)
  have "files w1 c = Some (Regular g)"
    using e(3) by simp
  then have bs: "bs = HEADER_SIGNATURE @ ?iv @ ct"
    using h e(2) by (auto simp: open_rb_def split: if_splits)
  have parts: "take IV_LEN (drop HEADER_LEN bs) = ?iv" "drop (HEADER_LEN + IV_LEN) bs = ct"
    using bs iv by (simp_all add: lengths header_length)
  have dec: "aesgcm_decrypt P (derive_key P password) ?iv ct = Some data"
    using h e(1) iv key unfolding library_contract_def by blast
  then have one: "aesgcm_decrypt P (derive_key P password) (take IV_LEN (drop HEADER_LEN bs))
     (drop (HEADER_LEN + IV_LEN) bs) = Some data"
    by (simp only: parts)
  have two: "decrypt_file P c out password w1 = write_wb out data w1"
    using h one by (simp add: decrypt_file_def Let_def)
  have three: "\<exists>g. files (snd (decrypt_file P c out password w1)) out = Some (Regular g) \<and>
      content g = data" if ok: "fst (write_wb out data w1) = Inr ()"
  proof -
    have "write_wb out data w1 = (Inr (), snd (write_wb out data w1))"
      using ok by (metis prod.collapse)
    then show ?thesis
      using write_wb_success [of out data w1 "()" "snd (write_wb out data w1)"] two by auto
  qed
  show "aesgcm_decrypt P (derive_key P password) (take IV_LEN (drop HEADER_LEN bs))
     (drop (HEADER_LEN + IV_LEN) bs) = Some data \<and>
   decrypt_file P c out password w1 = write_wb out data w1 \<and>
   (fst (write_wb out data w1) = Inr () \<longrightarrow>
      (\<exists>g. files (snd (decrypt_file P c out password w1)) out = Some (Regular g) \<and>
           content g = data))"
    using one two three by blast
qed

theorem encrypt_decrypt_round_trip_witness:
  "decrypt_file standin ''notes.yjch'' ''copy'' demo_password encrypted_world =
     write_wb ''copy'' hello encrypted_world \<and>
   (\<exists>g. files (snd (decrypt_file standin ''notes.yjch'' ''copy'' demo_password encrypted_world))
          ''copy'' = Some (Regular g) \<and> content g = hello)"
proof -
  have "open_rb demo_world ''notes'' = Inr hello"
    by (simp add: open_rb_def demo_world_def)
  moreover have "open_rb encrypted_world ''notes.yjch'' = Inr demo_container"
    by (simp add: open_rb_def encrypted_world_def demo_world_def)
  moreover have "fst (write_wb ''copy'' hello encrypted_world) = Inr ()"
    by (simp add: write_wb_def encrypted_world_def demo_world_def)
  ultimately have "aesgcm_decrypt standin (derive_key standin demo_password)
       (take IV_LEN (drop HEADER_LEN demo_container))
       (drop (HEADER_LEN + IV_LEN) demo_container) = Some hello \<and>
     decrypt_file standin ''notes.yjch'' ''copy'' demo_password encrypted_world =
       write_wb ''copy'' hello encrypted_world \<and>
     (\<exists>g. files (snd (decrypt_file standin ''notes.yjch'' ''copy'' demo_password
              encrypted_world)) ''copy'' = Some (Regular g) \<and> content g = hello)"
    using encrypt_decrypt_round_trip [of standin demo_world "''notes''" hello "''notes.yjch''"
        demo_password "()" encrypted_world demo_container "''copy''"]
      standin_contract demo_encryption
    by blast
  then show ?thesis
    by blast
qed

text \<open>
  Claim C8. When the output path exists and the operator declines to overwrite it, the
  encryption ends there (lines 75 to 79) and so does \<open>_handle_encrypt\<close> as a whole: the
  line of the cancelled operation is printed and the file system is what it was, the input
  file and the existing output file included.
\<close>

theorem overwrite_declined:
  "(path_exists w3 (p @ ''.yjch'') \<and> confirms w3 = False # cs \<longrightarrow>
      encrypt_with_password P p password w3 =
        (Inr (), print MsgOperationAnnulee
           (w3\<lparr>asked := asked w3 @ [AskEcraser (p @ ''.yjch'')], confirms := cs\<rparr>)) \<and>
      files (snd (encrypt_with_password P p password w3)) = files w3) \<and>
   (p \<noteq> [] \<and> files w p = Some (Regular f) \<and> readable f \<and>
    take HEADER_LEN (content f) \<noteq> HEADER_SIGNATURE \<and> texts w = Some p # ts \<and>
    ask_password_and_verify (w\<lparr>texts := ts\<rparr>) = (Inr password, w3) \<and>
    path_exists w (p @ ''.yjch'') \<and> confirms w3 = False # cs \<longrightarrow>
      handle_encrypt P w =
        (Inr (), print MsgOperationAnnulee
           (w3\<lparr>asked := asked w3 @ [AskEcraser (p @ ''.yjch'')], confirms := cs\<rparr>)) \<and>
      files (snd (handle_encrypt P w)) = files w)"
proof (intro conjI impI)
  assume h: "path_exists w3 (p @ ''.yjch'') \<and> confirms w3 = False # cs"
  then show a: "encrypt_with_password P p password w3 =
      (Inr (), print MsgOperationAnnulee
         (w3\<lparr>asked := asked w3 @ [AskEcraser (p @ ''.yjch'')], confirms := cs\<rparr>))"
    by (simp add: encrypt_with_password_def confirm_def)
  show "files (snd (encrypt_with_password P p password w3)) = files w3"
    unfolding a by (simp add: print_def)
next
  assume h: "p \<noteq> [] \<and> files w p = Some (Regular f) \<and> readable f \<and>
    take HEADER_LEN (content f) \<noteq> HEADER_SIGNATURE \<and> texts w = Some p # ts \<and>
    ask_password_and_verify (w\<lparr>texts := ts\<rparr>) = (Inr password, w3) \<and>
    path_exists w (p @ ''.yjch'') \<and> confirms w3 = False # cs"
  let ?w1 = "w\<lparr>texts := ts\<rparr>"
  have same: "files w3 = files w"
    using h ask_password_and_verify_frame [of ?w1 "Inr password" w3]
    by (simp add: same_storage_def)
  then have ex: "path_exists w3 (p @ ''.yjch'')"
    using h by (simp add: path_exists_def)
  have "handle_encrypt P w = encrypt_with_password P p password w3"
    using h
    by (simp add: handle_encrypt_def ask_file_path_def isfile_def is_already_encrypted_def
        open_rb_def)
  also have "\<dots> = (Inr (), print MsgOperationAnnulee
      (w3\<lparr>asked := asked w3 @ [AskEcraser (p @ ''.yjch'')], confirms := cs\<rparr>))"
    using h ex by (simp add: encrypt_with_password_def confirm_def)
  finally show b: "handle_encrypt P w = (Inr (), print MsgOperationAnnulee
      (w3\<lparr>asked := asked w3 @ [AskEcraser (p @ ''.yjch'')], confirms := cs\<rparr>))" .
  show "files (snd (handle_encrypt P w)) = files w"
    unfolding b using same by (simp add: print_def)
qed

theorem overwrite_declined_witness:
  "handle_encrypt standin occupied_session =
     (Inr (), occupied_asked\<lparr>confirms := [], asked := [AskEcraser ''notes.yjch''],
        console := [MsgErreurConnexion, MsgOperationAnnulee]\<rparr>) \<and>
   files (snd (handle_encrypt standin occupied_session)) = files occupied_session \<and>
   files (snd (encrypt_with_password standin ''notes'' demo_password occupied_asked)) =
     files occupied_session"
proof -
  have ne: "demo_password \<noteq> []"
    by (simp add: demo_password_def)
  note worlds = occupied_session_def occupied_asked_def demo_world_def
  have "check_password_pwned demo_password (occupied_session\<lparr>texts := [], passwords := []\<rparr>) =
      (False, occupied_asked)"
    by (simp add: check_password_pwned_def Let_def worlds print_def)
  then have apv: "ask_password_and_verify (occupied_session\<lparr>texts := []\<rparr>) =
      (Inr demo_password, occupied_asked)"
    using ne
    by (intro ask_password_and_verify_clean [where ps = "[]"]) (simp_all add: worlds)
  have "hello \<noteq> HEADER_SIGNATURE @ bs" for bs
    by (simp add: hello_def utf8_def utf8_char_def HEADER_SIGNATURE_def)
  then have plain: "take 8 hello \<noteq> HEADER_SIGNATURE"
    by (metis append_take_drop_id)
  show ?thesis
    using overwrite_declined [of occupied_asked "''notes''" "[]" standin demo_password
        occupied_session "\<lparr>content = hello, readable = True, writable = True\<rparr>" "[]"]
      apv plain
    by (simp add: worlds path_exists_def lengths print_def)
qed

section \<open>The digest and the lines of a response\<close>

lemma sha1_length: "length (sha1 m) = 20"
  by (simp add: sha1_def Let_def bytes_of_def split: prod.splits)

lemma hexdigest_length: "length (hexdigest bs) = 2 * length bs"
  by (induction bs) (simp_all add: hexdigest_def hex_byte_def)

lemma sha1_hex_upper_length: "length (sha1_hex_upper password) = 40"
  by (simp add: sha1_hex_upper_def upper_def hexdigest_length sha1_length)

lemma hex_digit_lower: "hex_digit n \<in> set ''0123456789abcdef''"
  unfolding hex_digit_def by (rule nth_mem) simp

lemma upper_hex_digits: "map upper_char ''0123456789abcdef'' = ''0123456789ABCDEF''"
  by code_simp

lemma upper_char_hex:
  assumes "c \<in> set ''0123456789abcdef''"
  shows "upper_char c \<in> set ''0123456789ABCDEF''"
proof -
  have "upper_char c \<in> set (map upper_char ''0123456789abcdef'')"
    using assms by (simp only: set_map image_eqI)
  then show ?thesis
    by (simp only: upper_hex_digits)
qed

lemma sha1_hex_upper_chars: "set (sha1_hex_upper password) \<subseteq> set ''0123456789ABCDEF''"
proof -
  have "set (hexdigest bs) \<subseteq> set ''0123456789abcdef''" for bs
    unfolding hexdigest_def hex_byte_def using hex_digit_lower by auto
  then show ?thesis
    unfolding sha1_hex_upper_def upper_def using upper_char_hex by auto
qed







lemma range_url_hides:
  assumes "set x \<subseteq> set ''0123456789ABCDEF''" "35 \<le> length x" "length prefix = 5"
  shows "\<not> occurs_in x (range_url prefix)"
proof
  let ?url = "range_url prefix"
  assume "occurs_in x ?url"
  then obtain j where j: "j \<le> length ?url" "take (length x) (drop j ?url) = x"
    using occurs_in_iff by blast
  have len: "length ?url = 42"
    using assms(3) by (simp add: range_url_def)
  have "length (take (length x) (drop j ?url)) = length x"
    using j(2) by simp
  then have "length x \<le> 42 - j"
    using len by simp
  then have small: "j \<le> 7"
    using assms(2) by simp
  then have inside: "7 - j < length x"
    using assms(2) by simp
  have "x ! (7 - j) = take (length x) (drop j ?url) ! (7 - j)"
    using j(2) by simp
  also have "\<dots> = ?url ! (j + (7 - j))"
    using inside len small by simp
  also have "\<dots> = ?url ! 7"
    using small by simp
  also have "\<dots> = CHR ''/''"
    by (simp add: range_url_def)
  finally have "CHR ''/'' \<in> set x"
    using inside by (metis nth_mem)
  then show False
    using assms(1) by auto
qed

lemma ask_password_and_verify_sent:
  "ask_password_and_verify w = (r, w') \<Longrightarrow>
   \<forall>u\<in>set (sent w'). u \<in> set (sent w) \<or>
     (\<exists>pw. Some pw \<in> set (passwords w) \<and> u = range_url (take 5 (sha1_hex_upper pw)))"
proof (induction "passwords w" arbitrary: w)
  case Nil
  then show ?case
    using ask_password_and_verify_interrupted [of w] by simp
next
  case (Cons a ps)
  have pws: "passwords w = a # ps"
    using Cons.hyps(2) by simp
  let ?w1 = "w\<lparr>passwords := ps\<rparr>"
  show ?case
  proof (cases "a = None \<or> a = Some []")
    case True
    let ?w2 = "print MsgMotDePasseVide ?w1"
    have "ask_password_and_verify ?w2 = (r, w')"
      using ask_password_and_verify_empty [OF pws True] Cons.prems by simp
    moreover have "ps = passwords ?w2"
      by (simp add: print_def)
    ultimately have "\<forall>u\<in>set (sent w'). u \<in> set (sent ?w2) \<or>
        (\<exists>pw. Some pw \<in> set (passwords ?w2) \<and> u = range_url (take 5 (sha1_hex_upper pw)))"
      by (rule Cons.hyps(1) [rotated])
    then show ?thesis
      using pws by (auto simp: print_def)
  next
    case False
    then obtain pw where a: "a = Some pw" "pw \<noteq> []"
      by (cases a) auto
    have pws': "passwords w = Some pw # ps"
      using pws a by simp
    obtain b w2 where chk: "check_password_pwned pw ?w1 = (b, w2)"
      by (cases "check_password_pwned pw ?w1")
    then obtain msgs where w2: "w2 = ?w1\<lparr>sent := sent ?w1 @ [range_url (take 5 (sha1_hex_upper pw))],
        console := console ?w1 @ msgs\<rparr>"
      using check_password_pwned_frame by blast
    have here: "\<forall>u\<in>set (sent w2). u \<in> set (sent w) \<or>
        (\<exists>pw. Some pw \<in> set (passwords w) \<and> u = range_url (take 5 (sha1_hex_upper pw)))"
      using w2 pws' by auto
    show ?thesis
    proof (cases b)
      case False
      then have "ask_password_and_verify w = (Inr pw, w2)"
        using ask_password_and_verify_clean [OF pws' a(2)] chk by simp
      then show ?thesis
        using Cons.prems here by auto
    next
      case True
      then have chk': "check_password_pwned pw ?w1 = (True, w2)"
        using chk by simp
      note step = ask_password_and_verify_breached [OF pws' a(2) chk']
      show ?thesis
      proof (cases "confirms w2")
        case Nil
        then have "sent w' = sent w2"
          using step Cons.prems by (auto simp: print_def)
        then show ?thesis
          using here by simp
      next
        case (Cons c cs)
        let ?w3 = "(print MsgCompromis w2)\<lparr>asked := asked w2 @ [AskUtiliserQuandMeme],
          confirms := cs\<rparr>"
        show ?thesis
        proof (cases c)
          case True
          then have "sent w' = sent w2"
            using step Cons Cons.prems by (auto simp: print_def)
          then show ?thesis
            using here by simp
        next
          case False
          then have "ask_password_and_verify ?w3 = (r, w')"
            using step Cons Cons.prems by simp
          moreover have "ps = passwords ?w3"
            using w2 by (simp add: print_def)
          ultimately have "\<forall>u\<in>set (sent w'). u \<in> set (sent ?w3) \<or>
              (\<exists>pw. Some pw \<in> set (passwords ?w3) \<and> u = range_url (take 5 (sha1_hex_upper pw)))"
            by (rule Cons.hyps(1) [rotated])
          moreover have "sent ?w3 = sent w2" "passwords ?w3 = ps"
            using w2 by (simp_all add: print_def)
          ultimately show ?thesis
            using here pws by auto
        qed
      qed
    qed
  qed
qed

lemma shared_prefix:
  "\<exists>pw pw'. pw \<noteq> pw' \<and> take 5 (sha1_hex_upper pw) = take 5 (sha1_hex_upper pw')"
proof -
  let ?f = "\<lambda>pw. take 5 (sha1_hex_upper pw)"
  have "range ?f \<subseteq> {xs. set xs \<subseteq> set ''0123456789ABCDEF'' \<and> length xs = 5}"
    using sha1_hex_upper_chars set_take_subset
    by (fastforce simp: sha1_hex_upper_length)
  moreover have "finite {xs. set xs \<subseteq> set ''0123456789ABCDEF'' \<and> length xs = 5}"
    by (rule finite_lists_length_eq) simp
  ultimately have "finite (range ?f)"
    by (rule finite_subset)
  moreover have "infinite (UNIV :: string set)"
    by (rule infinite_UNIV_listI)
  ultimately obtain pw where inf: "infinite {pw'. ?f pw' = ?f pw}"
    using pigeonhole_infinite [of UNIV ?f] by auto
  then have "\<not> {pw'. ?f pw' = ?f pw} \<subseteq> {pw}"
    using finite_subset by blast
  then obtain pw' where "?f pw' = ?f pw" "pw' \<noteq> pw"
    by blast
  then show ?thesis
    by metis
qed

section \<open>The breach check\<close>



text \<open>
  Claim C4, as the code has it. \<open>_check_password_pwned\<close> returns a single boolean. When the
  connection fails or the status is not 200 it prints a line and returns \<open>False\<close>, having
  asked once; \<open>_ask_password_and_verify\<close> then returns the password without a further
  question, so that the encryption goes on with nothing more than the printed line.
\<close>

theorem breach_check_fail_open:
  "(net w (range_url (take 5 (sha1_hex_upper password))) = ConnectionFailed \<longrightarrow>
      check_password_pwned password w =
        (False, print MsgErreurConnexion
           (w\<lparr>sent := sent w @ [range_url (take 5 (sha1_hex_upper password))]\<rparr>))) \<and>
   (net w (range_url (take 5 (sha1_hex_upper password))) = Response status body \<and>
    status \<noteq> 200 \<longrightarrow>
      check_password_pwned password w =
        (False, print MsgErreurAPI
           (w\<lparr>sent := sent w @ [range_url (take 5 (sha1_hex_upper password))]\<rparr>))) \<and>
   (passwords w = Some password # ps \<and> password \<noteq> [] \<and>
    (net w (range_url (take 5 (sha1_hex_upper password))) = ConnectionFailed \<or>
     net w (range_url (take 5 (sha1_hex_upper password))) = Response status body \<and>
     status \<noteq> 200) \<longrightarrow>
      fst (ask_password_and_verify w) = Inr password \<and>
      confirms (snd (ask_password_and_verify w)) = confirms w \<and>
      asked (snd (ask_password_and_verify w)) = asked w \<and>
      passwords (snd (ask_password_and_verify w)) = ps)"
proof (intro conjI impI)
  let ?url = "range_url (take 5 (sha1_hex_upper password))"
  show a: "check_password_pwned password w =
      (False, print MsgErreurConnexion (w\<lparr>sent := sent w @ [?url]\<rparr>))"
    if "net w ?url = ConnectionFailed" for w
    using that by (simp add: check_password_pwned_def Let_def)
  show b: "check_password_pwned password w =
      (False, print MsgErreurAPI (w\<lparr>sent := sent w @ [?url]\<rparr>))"
    if "net w ?url = Response status body \<and> status \<noteq> 200" for w
    using that by (simp add: check_password_pwned_def Let_def)
  assume h: "passwords w = Some password # ps \<and> password \<noteq> [] \<and>
    (net w ?url = ConnectionFailed \<or> net w ?url = Response status body \<and> status \<noteq> 200)"
  let ?w1 = "w\<lparr>passwords := ps\<rparr>"
  from h have "net ?w1 ?url = ConnectionFailed \<or>
      net ?w1 ?url = Response status body \<and> status \<noteq> 200"
    by simp
  then obtain m where chk: "check_password_pwned password ?w1 =
      (False, print m (?w1\<lparr>sent := sent ?w1 @ [?url]\<rparr>))"
    using a [of ?w1] b [of ?w1] by blast
  have apv: "ask_password_and_verify w = (Inr password, print m (?w1\<lparr>sent := sent ?w1 @ [?url]\<rparr>))"
    using h chk by (intro ask_password_and_verify_clean [where ps = ps]) simp_all
  show "fst (ask_password_and_verify w) = Inr password"
    and "confirms (snd (ask_password_and_verify w)) = confirms w"
    and "asked (snd (ask_password_and_verify w)) = asked w"
    and "passwords (snd (ask_password_and_verify w)) = ps"
    unfolding apv by (simp_all add: print_def)
qed

theorem breach_check_fail_open_witness:
  "check_password_pwned demo_password demo_world =
     (False, demo_world\<lparr>sent := [range_url (take 5 (sha1_hex_upper demo_password))],
        console := [MsgErreurConnexion]\<rparr>) \<and>
   check_password_pwned demo_password error_world =
     (False, error_world\<lparr>sent := [range_url (take 5 (sha1_hex_upper demo_password))],
        console := [MsgErreurAPI]\<rparr>) \<and>
   fst (ask_password_and_verify (occupied_session\<lparr>texts := []\<rparr>)) = Inr demo_password \<and>
   confirms (snd (ask_password_and_verify (occupied_session\<lparr>texts := []\<rparr>))) = [False] \<and>
   asked (snd (ask_password_and_verify (occupied_session\<lparr>texts := []\<rparr>))) = []"
proof -
  have ne: "demo_password \<noteq> []"
    by (simp add: demo_password_def)
  show ?thesis
    using breach_check_fail_open [of demo_world demo_password 0 "[]" "[]"]
      breach_check_fail_open [of error_world demo_password 503 "[]" "[]"]
      breach_check_fail_open [of "occupied_session\<lparr>texts := []\<rparr>" demo_password 0 "[]" "[]"]
      ne
    by (simp add: demo_world_def error_world_def occupied_session_def print_def)
qed

text \<open>
  The claim as written (a failed query gives a result that differs from the one of a query
  that found nothing) fails: without a connection, on status 503 and on an answer 200 with
  an empty body the result is the same \<open>False\<close>.
\<close>

theorem breach_check_result_counterexample:
  "fst (check_password_pwned demo_password demo_world) = False \<and>
   fst (check_password_pwned demo_password error_world) = False \<and>
   fst (check_password_pwned demo_password empty_answer_world) = False"
  by (simp add: check_password_pwned_def Let_def demo_world_def error_world_def
      empty_answer_world_def splitlines_def)

text \<open>
  Claim C2. The request of \<open>_check_password_pwned\<close> is one URL, the fixed address of the
  range service followed by the first 5 characters of the upper-case hexadecimal SHA-1 digest
  of the password: nothing else of the password enters it, so that two passwords with the
  same five characters send the same request. Neither the 35 remaining characters nor the
  whole digest occur in that URL. And every request that the password loop of the
  encryption adds is such a URL, for one of the passwords entered.
\<close>

theorem breach_check_privacy:
  "sent (snd (check_password_pwned password w)) =
     sent w @ [range_url (take 5 (sha1_hex_upper password))] \<and>
   length (take 5 (sha1_hex_upper password)) = 5 \<and>
   length (drop 5 (sha1_hex_upper password)) = 35 \<and>
   \<not> occurs_in (drop 5 (sha1_hex_upper password))
       (range_url (take 5 (sha1_hex_upper password))) \<and>
   \<not> occurs_in (sha1_hex_upper password) (range_url (take 5 (sha1_hex_upper password))) \<and>
   (take 5 (sha1_hex_upper other) = take 5 (sha1_hex_upper password) \<longrightarrow>
      sent (snd (check_password_pwned other w)) =
        sent (snd (check_password_pwned password w))) \<and>
   (\<forall>u\<in>set (sent (snd (ask_password_and_verify w))). u \<in> set (sent w) \<or>
      (\<exists>pw. Some pw \<in> set (passwords w) \<and> u = range_url (take 5 (sha1_hex_upper pw))))"
proof -
  let ?h = "sha1_hex_upper password"
  have request: "sent (snd (check_password_pwned pw w)) =
      sent w @ [range_url (take 5 (sha1_hex_upper pw))]" for pw
  proof -
    obtain b w2 where r: "check_password_pwned pw w = (b, w2)"
      by (cases "check_password_pwned pw w")
    then obtain msgs where "w2 = w\<lparr>sent := sent w @ [range_url (take 5 (sha1_hex_upper pw))],
        console := console w @ msgs\<rparr>"
      using check_password_pwned_frame by blast
    then show ?thesis
      using r by simp
  qed
  have one: "sent (snd (check_password_pwned password w)) = sent w @ [range_url (take 5 ?h)]"
    by (rule request)
  have same: "sent (snd (check_password_pwned other w)) =
      sent (snd (check_password_pwned password w))"
    if "take 5 (sha1_hex_upper other) = take 5 ?h"
    using that by (simp add: request)
  have two: "length (take 5 ?h) = 5" "length (drop 5 ?h) = 35"
    by (simp_all add: sha1_hex_upper_length)
  have "set (drop 5 ?h) \<subseteq> set ''0123456789ABCDEF''"
    using sha1_hex_upper_chars set_drop_subset by fast
  then have three: "\<not> occurs_in (drop 5 ?h) (range_url (take 5 ?h))"
    using two by (intro range_url_hides) simp_all
  have four: "\<not> occurs_in ?h (range_url (take 5 ?h))"
    using sha1_hex_upper_chars two by (intro range_url_hides) (simp_all add: sha1_hex_upper_length)
  have five: "\<forall>u\<in>set (sent (snd (ask_password_and_verify w))). u \<in> set (sent w) \<or>
      (\<exists>pw. Some pw \<in> set (passwords w) \<and> u = range_url (take 5 (sha1_hex_upper pw)))"
    using ask_password_and_verify_sent [of w "fst (ask_password_and_verify w)"
        "snd (ask_password_and_verify w)"]
    by simp
  show ?thesis
    using one two three four five same by blast
qed

theorem breach_check_privacy_witness:
  "sent (snd (check_password_pwned demo_password demo_world)) =
     [range_url (take 5 (sha1_hex_upper demo_password))] \<and>
   set (sent (snd (ask_password_and_verify (occupied_session\<lparr>texts := []\<rparr>)))) \<subseteq>
     {range_url (take 5 (sha1_hex_upper demo_password))} \<and>
   (\<exists>pw pw'. pw \<noteq> pw' \<and>
      sent (snd (check_password_pwned pw demo_world)) =
        sent (snd (check_password_pwned pw' demo_world)))"
proof -
  have "sent (snd (check_password_pwned demo_password demo_world)) =
      [range_url (take 5 (sha1_hex_upper demo_password))]"
    using breach_check_privacy [of demo_password demo_world]
    by (simp add: demo_world_def)
  moreover have "set (sent (snd (ask_password_and_verify (occupied_session\<lparr>texts := []\<rparr>)))) \<subseteq>
      {range_url (take 5 (sha1_hex_upper demo_password))}"
    using breach_check_privacy [of demo_password "occupied_session\<lparr>texts := []\<rparr>"]
    by (auto simp: occupied_session_def demo_world_def)
  moreover have "\<exists>pw pw'. pw \<noteq> pw' \<and>
      sent (snd (check_password_pwned pw demo_world)) =
        sent (snd (check_password_pwned pw' demo_world))"
  proof -
    obtain pw pw' where "pw \<noteq> pw'"
      "take 5 (sha1_hex_upper pw) = take 5 (sha1_hex_upper pw')"
      using shared_prefix by blast
    then show ?thesis
      using breach_check_privacy [of pw' demo_world pw] by blast
  qed
  ultimately show ?thesis
    by simp
qed

end
